theory Spec2Isabelle
  imports Main "HOL-Library.AList"
begin

section \<open>Data model of \<open>pants/backend/project_info/paths.py\<close>\<close>

text \<open>
  An \<open>Address\<close> is an opaque, hashable key: the type variable \<open>'a\<close>. A \<open>Target\<close> is an
  object of which this file reads the field \<open>address\<close> (and \<open>get(Dependencies)\<close>, which it
  only hands back to the engine); it is an extensible record, so a target may carry any
  further fields. \<open>Targets\<close> is a sequence of targets.
\<close>

record 'a target =
  address :: 'a

text \<open>
  A Python \<open>dict\<close> is an association list read with \<open>map_of\<close>: finite by construction and
  ordered by insertion. \<open>dict_get d k dflt\<close> is \<open>d.get(k, dflt)\<close>.
\<close>

type_synonym ('k, 'v) dict = "('k \<times> 'v) list"

definition dict_get :: "('k, 'v) dict \<Rightarrow> 'k \<Rightarrow> 'v \<Rightarrow> 'v" where
  "dict_get d k dflt = (case map_of d k of None \<Rightarrow> dflt | Some v \<Rightarrow> v)"

text \<open>
  \<open>dict(pairs)\<close>: every pair is stored in turn; a key already present keeps its place and
  takes the new value, a new key goes to the end.
\<close>

definition dict_of :: "('k \<times> 'v) list \<Rightarrow> ('k, 'v) dict" where
  "dict_of pairs = fold (\<lambda>(k, v) d. AList.update k v d) pairs []"

text \<open>
  An edge is the pair \<open>(prev_target, target)\<close> of the source, where \<open>prev_target\<close> is
  \<open>None\<close> for the one-node path that seeds the search.
\<close>

type_synonym 'a edge = "'a option \<times> 'a"

text \<open>
  What \<open>console.print_stderr\<close> is given: one constructor for each f-string of the file,
  holding the values that the f-string interpolates.
\<close>

datatype 'a message =
    Exploring_paths int int
  | Found_so_far int
  | Loading_dependencies 'a
  | Resolving_targets nat
  | Finding_paths_from_to 'a 'a
  | Finding_paths_to_destinations nat
  | Resolving_source_targets string
  | Found_source_and_destination_targets nat nat

text \<open>
  The exceptions: the two that the file raises itself, and \<open>Exception m\<close> for any other
  exception, raised by a call out of the file.
\<close>

datatype py_error = IndexError | ValueError string | Exception string

text \<open>
  The generator \<open>find_paths_breadth_first\<close> is modelled by the sequence of what it does
  that can be seen from outside, in order: a path it yields, a message it prints, an
  exception that ends it. \<open>Expanded e\<close> marks that the body of
  \<open>if current_edge not in visited_edges\<close> was entered for the edge \<open>e\<close> (the place
  where the source counts \<open>edges_visited += 1\<close>).
\<close>

datatype 'a event =
    Yield "'a list"
  | Print_stderr "'a message"
  | Expanded "'a edge"
  | Raise py_error

primrec yielded :: "'a event list \<Rightarrow> 'a list list" where
  "yielded [] = []"
| "yielded (ev # evs) = (case ev of Yield p \<Rightarrow> p # yielded evs | _ \<Rightarrow> yielded evs)"

primrec expanded :: "'a event list \<Rightarrow> 'a edge list" where
  "expanded [] = []"
| "expanded (ev # evs) = (case ev of Expanded e \<Rightarrow> e # expanded evs | _ \<Rightarrow> expanded evs)"

primrec printed :: "'a event list \<Rightarrow> 'a message list" where
  "printed [] = []"
| "printed (ev # evs) = (case ev of Print_stderr m \<Rightarrow> m # printed evs | _ \<Rightarrow> printed evs)"

primrec raised :: "'a event list \<Rightarrow> py_error list" where
  "raised [] = []"
| "raised (ev # evs) = (case ev of Raise e \<Rightarrow> e # raised evs | _ \<Rightarrow> raised evs)"

section \<open>\<open>find_paths_breadth_first\<close>\<close>

text \<open>The local variables of the generator (lines 70 to 74 of the source).\<close>

record 'a walk_state =
  visited_edges :: "'a edge set"
  to_walk_paths :: "'a list list"
  paths_found :: int
  edges_visited :: int
  last_progress_update :: int

text \<open>
  Lines 78 to 84: \<open>target = cur_path[-1]\<close>, \<open>prev_target = cur_path[-2]\<close> when the path has
  more than one node and \<open>None\<close> otherwise. It is only used on a non-empty path (on the
  empty one \<open>cur_path[-1]\<close> raises, see \<open>walk\<close>).
\<close>

definition current_edge :: "'a list \<Rightarrow> 'a edge" where
  "current_edge cur_path =
     (let target = last cur_path;
          prev_target = (if length cur_path > 1 then Some (cur_path ! (length cur_path - 2))
                         else None)
      in (prev_target, target))"

text \<open>
  Lines 92 to 100, the loop \<open>for dep in adjacency_lists.get(target, [])\<close>, by recursion on
  the sequence of the dependencies: it returns the events of the loop and the state
  after it.
\<close>

primrec for_dep ::
  "'a \<Rightarrow> 'a list \<Rightarrow> ('a, 'b) target_scheme list \<Rightarrow> 'a walk_state
     \<Rightarrow> 'a event list \<times> 'a walk_state" where
  "for_dep to_target cur_path [] s = ([], s)"
| "for_dep to_target cur_path (dep # deps) s =
     (let dep_path = cur_path @ [address dep] in
      if address dep = to_target then
        (let s1 = s\<lparr>paths_found := paths_found s + 1\<rparr>;
             out = (if paths_found s1 mod 100 = 0
                    then [Print_stderr (Found_so_far (paths_found s1))] else [])
                   @ [Yield dep_path];
             r = for_dep to_target cur_path deps s1
         in (out @ fst r, snd r))
      else for_dep to_target cur_path deps
             (s\<lparr>to_walk_paths := to_walk_paths s @ [dep_path]\<rparr>))"

text \<open>
  Lines 78 to 101, the body of the \<open>while\<close> loop for the path \<open>cur_path\<close> that \<open>popleft\<close>
  has just taken from the queue (\<open>s\<close> is the state after \<open>popleft\<close>).
\<close>

definition loop_body ::
  "('a, ('a, 'b) target_scheme list) dict \<Rightarrow> 'a \<Rightarrow> 'a list \<Rightarrow> 'a walk_state
     \<Rightarrow> 'a event list \<times> 'a walk_state" where
  "loop_body adjacency_lists to_target cur_path s =
     (if current_edge cur_path \<notin> visited_edges s then
        (let s1 = s\<lparr>edges_visited := edges_visited s + 1\<rparr>;
             progress = (edges_visited s1 - last_progress_update s1 \<ge> 1000);
             out1 = (if progress
                     then [Print_stderr (Exploring_paths (paths_found s1) (edges_visited s1))]
                     else []);
             s2 = (if progress then s1\<lparr>last_progress_update := edges_visited s1\<rparr> else s1);
             r = for_dep to_target cur_path
                   (dict_get adjacency_lists (last cur_path) []) s2;
             s3 = (snd r)\<lparr>visited_edges := insert (current_edge cur_path)
                                               (visited_edges (snd r))\<rparr>
         in (Expanded (current_edge cur_path) # out1 @ fst r, s3))
      else ([], s))"

text \<open>
  Lines 76 to 101, the \<open>while\<close> loop. \<open>popleft\<close> takes the first path of the queue;
  \<open>cur_path[-1]\<close> raises \<open>IndexError\<close> on an empty path, which ends the generator. The
  loop is a recursive function of the state; that it is total is the termination proof
  below.
\<close>

function walk ::
  "('a, ('a, 'b) target_scheme list) dict \<Rightarrow> 'a \<Rightarrow> 'a walk_state \<Rightarrow> 'a event list" where
  "walk adjacency_lists to_target s =
     (case to_walk_paths s of
        [] \<Rightarrow> []
      | cur_path # rest \<Rightarrow>
          if cur_path = [] then [Raise IndexError]
          else (let r = loop_body adjacency_lists to_target cur_path
                          (s\<lparr>to_walk_paths := rest\<rparr>)
                in fst r @ walk adjacency_lists to_target (snd r)))"
  by pat_completeness auto

text \<open>Lines 66 to 74: the self-path, or the loop from the initial state.\<close>

definition find_paths_breadth_first ::
  "('a, ('a, 'b) target_scheme list) dict \<Rightarrow> 'a \<Rightarrow> 'a \<Rightarrow> 'a event list" where
  "find_paths_breadth_first adjacency_lists from_target to_target =
     (if from_target = to_target then [Yield [from_target]]
      else walk adjacency_lists to_target
             \<lparr>visited_edges = {}, to_walk_paths = [[from_target]], paths_found = 0,
              edges_visited = 0, last_progress_update = 0\<rparr>)"

section \<open>The rules\<close>

record SpecsPaths =
  paths :: "string list list"

record SpecsPathsCollection =
  spec_paths :: "SpecsPaths list"

record ('a, 'b) RootDestinationPair =
  root :: "('a, 'b) target_scheme"
  destination :: "('a, 'b) target_scheme"

text \<open>The field \<open>root\<close> of the second pair class is \<open>root_of\<close> here.\<close>

record ('a, 'b) RootDestinationsPair =
  root_of :: "('a, 'b) target_scheme"
  destinations :: "('a, 'b) target_scheme list"

record PathsGoal =
  exit_code :: int

text \<open>
  The options \<open>--from\<close> and \<open>--to\<close> of \<open>PathsSubsystem\<close> (\<open>from_\<close> and \<open>to\<close> in the source),
  \<open>None\<close> when unset.
\<close>

record PathsSubsystem =
  from' :: "string option"
  to :: "string option"

text \<open>
  The engine and the address type are imported by the file, and are parameters here:
  \<^item> \<open>transitive_targets_closure eng roots\<close> is the \<open>closure\<close> of
    \<open>transitive_targets_get(TransitiveTargetsRequest(roots, AlwaysTraverseDeps()))\<close>, in
    its iteration order;
  \<^item> \<open>resolve_dependencies eng tgt\<close> is
    \<open>resolve_targets(DependenciesRequest(tgt.get(Dependencies), AlwaysTraverseDeps()))\<close>;
  \<^item> \<open>resolve_specs eng s\<close> is \<open>resolve_targets(SpecsParser().parse_specs([s], ...))\<close>;
  \<^item> \<open>spec eng a\<close> is \<open>a.spec\<close>.
  They are functions: the engine answers equal requests equally. They give what a call
  returns when it returns; that a call raises instead is said by \<open>raises\<close>, below.
\<close>

record ('a, 'b) engine =
  transitive_targets_closure :: "'a list \<Rightarrow> ('a, 'b) target_scheme list"
  resolve_dependencies :: "('a, 'b) target_scheme \<Rightarrow> ('a, 'b) target_scheme list"
  resolve_specs :: "string \<Rightarrow> ('a, 'b) target_scheme list"
  spec :: "'a \<Rightarrow> string"

text \<open>
  What a rule does besides returning, as the sequence of the calls it makes out of the
  file: the messages it prints, the patterns it parses, the requests it awaits from the
  engine (one effect for each \<open>await\<close>ed call, written by this file, whether or not the
  engine answers it from a cache), the text it writes to the output.
  \<open>Parse_specs s\<close> is \<open>specs_parser.parse_specs([s], ...)\<close>, \<open>Await_specs s\<close> the awaited
  \<open>resolve_targets\<close> of the parsed pattern, \<open>Await_dependencies a\<close> the request for the
  dependencies of the target whose address is \<open>a\<close>; \<open>Write_stdout ps\<close> is
  \<open>write_stdout(json.dumps(ps, indent=2) + "\n")\<close> inside \<open>paths_subsystem.output\<close>.
  The units that \<open>concurrently\<close> runs are written one after the other, in the order of
  the generator, which is the order of the results.
\<close>

datatype 'a effect =
    Console_stderr "'a message"
  | Parse_specs string
  | Await_transitive_targets "'a list"
  | Await_dependencies 'a
  | Await_specs string
  | Write_stdout "string list list"

text \<open>
  Any of these calls may raise instead of returning: \<open>raises e = Some x\<close> says that the call
  \<open>e\<close> raises \<open>x\<close>. No rule of the file catches an exception, so a run goes as far as the
  first call that raises and ends with its exception: \<open>until_raise raises es\<close> is the part
  of the calls \<open>es\<close> that is made (the call that raises is the last), and the exception, or
  \<open>None\<close> when every call returns.
\<close>

primrec until_raise ::
  "('a effect \<Rightarrow> py_error option) \<Rightarrow> 'a effect list \<Rightarrow> 'a effect list \<times> py_error option" where
  "until_raise raises [] = ([], None)"
| "until_raise raises (e # es) =
     (case raises e of
        Some x \<Rightarrow> ([e], Some x)
      | None \<Rightarrow> (let r = until_raise raises es in (e # fst r, snd r)))"

primrec awaited_transitive_targets :: "'a effect list \<Rightarrow> 'a list list" where
  "awaited_transitive_targets [] = []"
| "awaited_transitive_targets (e # es) =
     (case e of Await_transitive_targets roots \<Rightarrow> roots # awaited_transitive_targets es
      | _ \<Rightarrow> awaited_transitive_targets es)"

primrec awaited_dependencies :: "'a effect list \<Rightarrow> 'a list" where
  "awaited_dependencies [] = []"
| "awaited_dependencies (e # es) =
     (case e of Await_dependencies a \<Rightarrow> a # awaited_dependencies es
      | _ \<Rightarrow> awaited_dependencies es)"

primrec written_stdout :: "'a effect list \<Rightarrow> string list list list" where
  "written_stdout [] = []"
| "written_stdout (e # es) =
     (case e of Write_stdout ps \<Rightarrow> ps # written_stdout es | _ \<Rightarrow> written_stdout es)"

text \<open>
  Lines 127 to 162: the calls that the rule makes and what it returns, when every call
  returns. The \<open>for\<close> loop over the generator collects the yielded paths; the generator
  never raises from its initial state (lemma \<open>find_paths_breadth_first_raised\<close>), so the
  loop has no other exit.
\<close>

definition get_paths_between_root_and_destination ::
  "('a, 'b) engine \<Rightarrow> ('a, 'b) RootDestinationPair \<Rightarrow> 'a effect list \<times> SpecsPaths" where
  "get_paths_between_root_and_destination eng pair =
     (let e1 = [Console_stderr (Loading_dependencies (address (root pair)))];
          closure = transitive_targets_closure eng [address (root pair)];
          e2 = [Await_transitive_targets [address (root pair)]];
          e3 = [Console_stderr (Resolving_targets (length closure))];
          adjacent_targets_per_target = map (resolve_dependencies eng) closure;
          e4 = map (\<lambda>tgt. Await_dependencies (address tgt)) closure;
          transitive_targets_closure_addresses = map address closure;
          adjacency_lists =
            dict_of (zip transitive_targets_closure_addresses adjacent_targets_per_target);
          e5 = [Console_stderr
                  (Finding_paths_from_to (address (root pair)) (address (destination pair)))];
          run = find_paths_breadth_first adjacency_lists
                  (address (root pair)) (address (destination pair));
          e6 = map Console_stderr (printed run);
          found = map (map (spec eng)) (yielded run)
      in (e1 @ e2 @ e3 @ e4 @ e5 @ e6, \<lparr>paths = found\<rparr>))"

text \<open>Lines 166 to 178, when every call returns.\<close>

definition get_paths_between_root_and_destinations ::
  "('a, 'b) engine \<Rightarrow> ('a, 'b) RootDestinationsPair
     \<Rightarrow> 'a effect list \<times> SpecsPathsCollection" where
  "get_paths_between_root_and_destinations eng pair =
     (let e1 = [Console_stderr (Finding_paths_to_destinations (length (destinations pair)))];
          rs = map (\<lambda>d. get_paths_between_root_and_destination eng
                           \<lparr>root = root_of pair, destination = d\<rparr>)
                 (destinations pair)
      in (e1 @ concat (map fst rs), \<lparr>spec_paths = map snd rs\<rparr>))"

text \<open>
  Lines 192 to 233 of the goal rule \<open>paths\<close>: the calls it makes after its two checks when
  every call returns. Both patterns are parsed while the arguments of \<open>concurrently\<close> are
  built, before anything is awaited. The two nested \<open>for\<close> loops that fill
  \<open>all_spec_paths\<close> are two folds, \<open>extend\<close> is \<open>@\<close>.
\<close>

definition paths_body :: "('a, 'b) engine \<Rightarrow> string \<Rightarrow> string \<Rightarrow> 'a effect list" where
  "paths_body eng path_from path_to =
     (let e1 = [Console_stderr (Resolving_source_targets path_from)];
          e2 = [Parse_specs path_from, Parse_specs path_to,
                Await_specs path_from, Await_specs path_to];
          from_tgts = resolve_specs eng path_from;
          to_tgts = resolve_specs eng path_to;
          e3 = [Console_stderr (Found_source_and_destination_targets
                                  (length from_tgts) (length to_tgts))];
          rs = map (\<lambda>r. get_paths_between_root_and_destinations eng
                           \<lparr>root_of = r, destinations = to_tgts\<rparr>)
                 from_tgts;
          all_spec_paths =
            fold (\<lambda>spec_path acc.
                    fold (\<lambda>path acc. acc @ path) (map paths (spec_paths spec_path)) acc)
                 (map snd rs) [];
          e4 = [Write_stdout all_spec_paths]
      in e1 @ e2 @ e3 @ concat (map fst rs) @ e4)"

text \<open>
  Lines 182 to 235, the goal rule \<open>paths\<close> (\<open>paths_goal\<close> here, \<open>paths\<close> being the field
  above). A \<open>raise\<close> is the result \<open>Inl\<close>. The two checks come first, with no call before
  them; then the rule makes its calls as far as the first that raises, whose exception it
  lets through, and returns \<open>PathsGoal(exit_code=0)\<close> when all have returned.
\<close>

definition paths_goal ::
  "('a effect \<Rightarrow> py_error option) \<Rightarrow> ('a, 'b) engine \<Rightarrow> PathsSubsystem
     \<Rightarrow> 'a effect list \<times> (py_error + PathsGoal)" where
  "paths_goal raises eng paths_subsystem =
     (case from' paths_subsystem of
        None \<Rightarrow> ([], Inl (ValueError ''Must set --from''))
      | Some path_from \<Rightarrow>
     (case to paths_subsystem of
        None \<Rightarrow> ([], Inl (ValueError ''Must set --to''))
      | Some path_to \<Rightarrow>
     (let r = until_raise raises (paths_body eng path_from path_to)
      in (fst r, case snd r of Some x \<Rightarrow> Inl x | None \<Rightarrow> Inr \<lparr>exit_code = 0\<rparr>))))"

section \<open>Notions used by the properties\<close>

text \<open>
  The paths that one expansion of \<open>cur_path\<close> builds from the dependencies \<open>deps\<close>: those
  that end at \<open>to_target\<close> (\<open>hit\<close>) and those that do not.
\<close>

definition extensions ::
  "bool \<Rightarrow> 'a \<Rightarrow> 'a list \<Rightarrow> ('a, 'b) target_scheme list \<Rightarrow> 'a list list" where
  "extensions hit to_target cur_path deps =
     map (\<lambda>d. cur_path @ [address d]) (filter (\<lambda>d. (address d = to_target) = hit) deps)"

definition successors ::
  "('a, ('a, 'b) target_scheme list) dict \<Rightarrow> 'a list \<Rightarrow> ('a, 'b) target_scheme list" where
  "successors adjacency_lists cur_path = dict_get adjacency_lists (last cur_path) []"

text \<open>The edges of the map, and those among them and the queue's not yet visited.\<close>

definition adjacency_edges :: "('a, ('a, 'b) target_scheme list) dict \<Rightarrow> 'a edge set" where
  "adjacency_edges adj = (\<Union>(u, deps) \<in> set adj. (\<lambda>d. (Some u, address d)) ` set deps)"

definition unvisited ::
  "('a, ('a, 'b) target_scheme list) dict \<Rightarrow> 'a walk_state \<Rightarrow> 'a edge set" where
  "unvisited adj s =
     (adjacency_edges adj \<union> current_edge ` set (to_walk_paths s)) - visited_edges s"

definition walk_order ::
  "((('a, ('a, 'b) target_scheme list) dict \<times> 'a \<times> 'a walk_state)
    \<times> (('a, ('a, 'b) target_scheme list) dict \<times> 'a \<times> 'a walk_state)) set" where
  "walk_order = (\<lambda>(adj, to_target, s). card (unvisited adj s))
                  <*mlex*> measure (\<lambda>(adj, to_target, s). length (to_walk_paths s))"

text \<open>
  The queue of a breadth-first search: the lengths of its paths do not decrease, and none
  is more than one longer than the first.
\<close>

definition levelled :: "'a list list \<Rightarrow> bool" where
  "levelled q = (sorted (map length q) \<and> (\<forall>p \<in> set q. length p \<le> Suc (length (hd q))))"

text \<open>The ordered pairs of consecutive nodes of a path.\<close>

definition path_edges :: "'a list \<Rightarrow> ('a \<times> 'a) list" where
  "path_edges p = zip p (tl p)"

text \<open>Every node of the path is among the dependencies that the map gives for the node before it.\<close>

definition is_walk :: "('a, ('a, 'b) target_scheme list) dict \<Rightarrow> 'a list \<Rightarrow> bool" where
  "is_walk adj p = (\<forall>(u, v) \<in> set (path_edges p). v \<in> address ` set (dict_get adj u []))"

text \<open>
  Two invariants of the queue: its paths are walks of the map from \<open>from_target\<close> that do
  not touch \<open>to_target\<close>; and the edges of a path, its last edge apart, are visited and
  pairwise different.
\<close>

definition queue_walks ::
  "('a, ('a, 'b) target_scheme list) dict \<Rightarrow> 'a \<Rightarrow> 'a \<Rightarrow> 'a edge set \<Rightarrow> 'a list list \<Rightarrow> bool" where
  "queue_walks adj from_target to_target V q =
     (\<forall>p \<in> set q. p \<noteq> [] \<and> hd p = from_target \<and> to_target \<notin> set p \<and> is_walk adj p)"

definition queue_fresh :: "'a \<Rightarrow> 'a edge set \<Rightarrow> 'a list list \<Rightarrow> bool" where
  "queue_fresh to_target V q =
     (\<forall>p \<in> set q. p \<noteq> [] \<and> to_target \<notin> set p \<and> distinct (path_edges (butlast p))
        \<and> (\<forall>(u, v) \<in> set (path_edges (butlast p)). (Some u, v) \<in> V))"

text \<open>
  The order of the successors: \<open>precedes l x y\<close> when \<open>x\<close> stands at a position of \<open>l\<close>
  before a position of \<open>y\<close> (in a list without repetitions, when \<open>x\<close> comes before \<open>y\<close>).
  \<open>branches_before adj p q\<close>: the paths \<open>p\<close> and \<open>q\<close> have a common first part of \<open>k\<close> nodes,
  differ at the next node, and there the node of \<open>p\<close> precedes the node of \<open>q\<close> among the
  successors that the map gives for their last common node.
\<close>

definition precedes :: "'a list \<Rightarrow> 'a \<Rightarrow> 'a \<Rightarrow> bool" where
  "precedes l x y = (\<exists>j \<in> {..<length l}. \<exists>i \<in> {..<j}. l ! i = x \<and> l ! j = y)"

definition branches_before ::
  "('a, ('a, 'b) target_scheme list) dict \<Rightarrow> 'a list \<Rightarrow> 'a list \<Rightarrow> bool" where
  "branches_before adj p q =
     (\<exists>k \<in> {1..<min (length p) (length q)}.
        take k p = take k q \<and> p ! k \<noteq> q ! k
        \<and> precedes (map address (dict_get adj (p ! (k - 1)) [])) (p ! k) (q ! k))"

text \<open>
  The order that the queue keeps: two paths of one length are equal or the earlier
  branches before the later; a path one node longer than an earlier path of the queue is
  the child of a path that was equal to it or branched before it. Every path of two nodes
  or more in the queue is the child of a path whose edge is visited.
\<close>

definition tie_order ::
  "('a, ('a, 'b) target_scheme list) dict \<Rightarrow> 'a list \<Rightarrow> 'a list \<Rightarrow> bool" where
  "tie_order adj p q = (p = q \<or> branches_before adj p q)"

definition queue_order ::
  "('a, ('a, 'b) target_scheme list) dict \<Rightarrow> 'a list \<Rightarrow> 'a list \<Rightarrow> bool" where
  "queue_order adj a b =
     ((length a = length b \<longrightarrow> tie_order adj a b)
      \<and> (length a < length b \<longrightarrow> tie_order adj (butlast b) a))"

definition ordered_queue ::
  "('a, ('a, 'b) target_scheme list) dict \<Rightarrow> 'a edge set \<Rightarrow> 'a list list \<Rightarrow> bool" where
  "ordered_queue adj V q =
     (levelled q
      \<and> (\<forall>e \<in> set q. e \<noteq> [] \<and> (2 \<le> length e \<longrightarrow> current_edge (butlast e) \<in> V))
      \<and> sorted_wrt (queue_order adj) q)"

text \<open>
  \<open>in_order es xs\<close>: the list \<open>xs\<close> follows the order of \<open>es\<close>: it is \<open>es\<close> with elements
  left out and elements repeated in place.
\<close>

fun in_order :: "'a list \<Rightarrow> 'a list \<Rightarrow> bool" where
  "in_order es [] = True"
| "in_order [] (x # xs) = False"
| "in_order (e # es) (x # xs) = (if x = e then in_order (e # es) xs else in_order es (x # xs))"

text \<open>
  The adjacency map that \<open>get_paths_between_root_and_destination\<close> builds for a root
  address, and the paths it returns for a root and a destination: the yields of the
  search in that map, in their order, every address rendered by \<open>spec\<close>.
\<close>

definition adjacency_lists_of ::
  "('a, 'b) engine \<Rightarrow> 'a \<Rightarrow> ('a, ('a, 'b) target_scheme list) dict" where
  "adjacency_lists_of eng a =
     dict_of (zip (map address (transitive_targets_closure eng [a]))
                  (map (resolve_dependencies eng) (transitive_targets_closure eng [a])))"

definition discovered ::
  "('a, 'b) engine \<Rightarrow> ('a, 'b) target_scheme \<Rightarrow> ('a, 'b) target_scheme \<Rightarrow> string list list" where
  "discovered eng r d =
     map (map (spec eng))
       (yielded (find_paths_breadth_first (adjacency_lists_of eng (address r))
                   (address r) (address d)))"

subsection \<open>Example graphs\<close>

definition tgt :: "string \<Rightarrow> string target" where
  "tgt a = \<lparr>address = a\<rparr>"

text \<open>The diamond \<open>A \<rightarrow> B, A \<rightarrow> C, B \<rightarrow> D, C \<rightarrow> D\<close>.\<close>

definition diamond :: "(string, string target list) dict" where
  "diamond = [(''A'', [tgt ''B'', tgt ''C'']), (''B'', [tgt ''D'']), (''C'', [tgt ''D''])]"

text \<open>The diamond with the successors of \<open>A\<close> in the other order.\<close>

definition diamond_rev :: "(string, string target list) dict" where
  "diamond_rev = [(''A'', [tgt ''C'', tgt ''B'']), (''B'', [tgt ''D'']), (''C'', [tgt ''D''])]"

text \<open>The cycle \<open>A \<rightarrow> B, B \<rightarrow> A, A \<rightarrow> C\<close>, in both orders of the successors of \<open>A\<close>.\<close>

definition cyclic :: "(string, string target list) dict" where
  "cyclic = [(''A'', [tgt ''B'', tgt ''C'']), (''B'', [tgt ''A''])]"

definition cyclic_rev :: "(string, string target list) dict" where
  "cyclic_rev = [(''A'', [tgt ''C'', tgt ''B'']), (''B'', [tgt ''A''])]"

text \<open>
  Two roots and two destinations: \<open>A1 \<rightarrow> D1, A1 \<rightarrow> D2, A2 \<rightarrow> D2, A2 \<rightarrow> D1\<close>, and an engine
  that answers from this graph; the pattern \<open>A*\<close> selects the roots, \<open>D*\<close> the
  destinations.
\<close>

definition fan :: "(string, string target list) dict" where
  "fan = [(''A1'', [tgt ''D1'', tgt ''D2'']), (''A2'', [tgt ''D2'', tgt ''D1''])]"

definition fan_engine :: "(string, unit) engine" where
  "fan_engine =
     \<lparr>transitive_targets_closure = (\<lambda>roots. concat (map (\<lambda>r. tgt r # dict_get fan r []) roots)),
      resolve_dependencies = (\<lambda>t. dict_get fan (address t) []),
      resolve_specs = (\<lambda>s. if s = ''A*'' then [tgt ''A1'', tgt ''A2'']
                            else if s = ''D*'' then [tgt ''D1'', tgt ''D2''] else []),
      spec = (\<lambda>a. a)\<rparr>"

text \<open>
  The outside in which the engine cannot resolve the pattern \<open>A*\<close>, and every other call
  returns; and the outside in which every call returns.
\<close>

definition failing_resolution :: "string effect \<Rightarrow> py_error option" where
  "failing_resolution e = (if e = Await_specs ''A*'' then Some (Exception ''ResolveError'') else None)"

definition all_return :: "string effect \<Rightarrow> py_error option" where
  "all_return e = None"

section \<open>The loop body\<close>

lemma yielded_append: "yielded (xs @ ys) = yielded xs @ yielded ys"
  by (induction xs) (simp_all split: event.split)

lemma expanded_append: "expanded (xs @ ys) = expanded xs @ expanded ys"
  by (induction xs) (simp_all split: event.split)

lemma raised_append: "raised (xs @ ys) = raised xs @ raised ys"
  by (induction xs) (simp_all split: event.split)

lemma for_dep_yielded:
  "yielded (fst (for_dep to_target cur_path deps s)) = extensions True to_target cur_path deps"
  by (induction deps arbitrary: s) (simp_all add: extensions_def Let_def)

lemma for_dep_expanded: "expanded (fst (for_dep to_target cur_path deps s)) = []"
  by (induction deps arbitrary: s) (simp_all add: Let_def)

lemma for_dep_raised: "raised (fst (for_dep to_target cur_path deps s)) = []"
  by (induction deps arbitrary: s) (simp_all add: Let_def)

lemma for_dep_to_walk_paths:
  "to_walk_paths (snd (for_dep to_target cur_path deps s))
     = to_walk_paths s @ extensions False to_target cur_path deps"
  by (induction deps arbitrary: s) (simp_all add: extensions_def Let_def)

lemma for_dep_visited_edges:
  "visited_edges (snd (for_dep to_target cur_path deps s)) = visited_edges s"
  by (induction deps arbitrary: s) (simp_all add: Let_def)

lemma loop_body_skip:
  "current_edge cur_path \<in> visited_edges s \<Longrightarrow> loop_body adj to_target cur_path s = ([], s)"
  by (simp add: loop_body_def)

lemma loop_body_yielded:
  "current_edge cur_path \<notin> visited_edges s \<Longrightarrow>
   yielded (fst (loop_body adj to_target cur_path s))
     = extensions True to_target cur_path (successors adj cur_path)"
  by (simp add: loop_body_def Let_def yielded_append for_dep_yielded successors_def)

lemma loop_body_expanded:
  "current_edge cur_path \<notin> visited_edges s \<Longrightarrow>
   expanded (fst (loop_body adj to_target cur_path s)) = [current_edge cur_path]"
  by (simp add: loop_body_def Let_def expanded_append for_dep_expanded)

lemma loop_body_raised: "raised (fst (loop_body adj to_target cur_path s)) = []"
  by (simp add: loop_body_def Let_def raised_append for_dep_raised)

lemma loop_body_to_walk_paths:
  "current_edge cur_path \<notin> visited_edges s \<Longrightarrow>
   to_walk_paths (snd (loop_body adj to_target cur_path s))
     = to_walk_paths s @ extensions False to_target cur_path (successors adj cur_path)"
  by (simp add: loop_body_def Let_def for_dep_to_walk_paths successors_def)

lemma loop_body_visited_edges:
  "current_edge cur_path \<notin> visited_edges s \<Longrightarrow>
   visited_edges (snd (loop_body adj to_target cur_path s))
     = insert (current_edge cur_path) (visited_edges s)"
  by (simp add: loop_body_def Let_def for_dep_visited_edges)

lemma current_edge_snoc:
  "cur_path \<noteq> [] \<Longrightarrow> current_edge (cur_path @ [x]) = (Some (last cur_path), x)"
  by (simp add: current_edge_def nth_append last_conv_nth)

section \<open>Termination of the loop\<close>

text \<open>
  Every expansion visits an edge that was not visited, and the paths it adds to the queue
  end with edges of the map: the set of the unvisited edges of the map and of the queue
  shrinks. A path that is dropped shortens the queue and leaves that set as it is.
\<close>

lemma finite_adjacency_edges: "finite (adjacency_edges adj)"
  by (auto simp: adjacency_edges_def)

lemma successors_adjacency_edges:
  "d \<in> set (successors adj cur_path)
     \<Longrightarrow> (Some (last cur_path), address d) \<in> adjacency_edges adj"
proof -
  assume d: "d \<in> set (successors adj cur_path)"
  then obtain deps where m: "map_of adj (last cur_path) = Some deps" and "d \<in> set deps"
    by (cases "map_of adj (last cur_path)") (auto simp: successors_def dict_get_def)
  from map_of_SomeD [OF m] \<open>d \<in> set deps\<close> show ?thesis
    unfolding adjacency_edges_def by blast
qed

lemma finite_unvisited: "finite (unvisited adj s)"
  by (simp add: unvisited_def finite_adjacency_edges)

lemma extensions_edges:
  "cur_path \<noteq> [] \<Longrightarrow>
   current_edge ` set (extensions hit to_target cur_path (successors adj cur_path))
     \<subseteq> adjacency_edges adj"
  by (auto simp: extensions_def current_edge_snoc successors_adjacency_edges)

lemma unvisited_skip:
  assumes "to_walk_paths s = cur_path # rest" "current_edge cur_path \<in> visited_edges s"
  shows "unvisited adj (s\<lparr>to_walk_paths := rest\<rparr>) \<subseteq> unvisited adj s"
  using assms by (auto simp: unvisited_def)

lemma unvisited_expand:
  assumes "to_walk_paths s = cur_path # rest" "cur_path \<noteq> []"
    and "current_edge cur_path \<notin> visited_edges s"
  shows "unvisited adj (snd (loop_body adj to_target cur_path (s\<lparr>to_walk_paths := rest\<rparr>)))
           \<subset> unvisited adj s"
proof -
  let ?s' = "snd (loop_body adj to_target cur_path (s\<lparr>to_walk_paths := rest\<rparr>))"
  have q: "to_walk_paths ?s'
             = rest @ extensions False to_target cur_path (successors adj cur_path)"
    using assms(3) by (simp add: loop_body_to_walk_paths)
  have v: "visited_edges ?s' = insert (current_edge cur_path) (visited_edges s)"
    using assms(3) by (simp add: loop_body_visited_edges)
  have "unvisited adj ?s' \<subseteq> unvisited adj s - {current_edge cur_path}"
    using extensions_edges [OF assms(2), of False to_target adj] assms(1)
    unfolding unvisited_def q v by auto
  moreover have "current_edge cur_path \<in> unvisited adj s"
    using assms(1,3) by (simp add: unvisited_def)
  ultimately show ?thesis by blast
qed

lemma wf_walk_order: "wf walk_order"
  by (simp add: walk_order_def wf_mlex)

lemma walk_decreases:
  assumes q: "to_walk_paths s = cur_path # rest" and ne: "cur_path \<noteq> []"
  shows "((adj, to_target, snd (loop_body adj to_target cur_path (s\<lparr>to_walk_paths := rest\<rparr>))),
          (adj, to_target, s)) \<in> walk_order"
proof (cases "current_edge cur_path \<in> visited_edges s")
  case True
  then have "snd (loop_body adj to_target cur_path (s\<lparr>to_walk_paths := rest\<rparr>))
               = s\<lparr>to_walk_paths := rest\<rparr>"
    by (simp add: loop_body_skip)
  moreover have "card (unvisited adj (s\<lparr>to_walk_paths := rest\<rparr>)) \<le> card (unvisited adj s)"
    by (rule card_mono [OF finite_unvisited unvisited_skip [OF q True]])
  ultimately show ?thesis
    using q unfolding walk_order_def by (auto intro!: mlex_leq)
next
  case False
  have "card (unvisited adj (snd (loop_body adj to_target cur_path (s\<lparr>to_walk_paths := rest\<rparr>))))
          < card (unvisited adj s)"
    by (rule psubset_card_mono [OF finite_unvisited unvisited_expand [OF q ne False]])
  then show ?thesis
    unfolding walk_order_def by (auto intro!: mlex_less)
qed

termination walk
  by (relation walk_order) (simp_all add: wf_walk_order walk_decreases)

lemma walk_rel_order: "walk_rel x y \<Longrightarrow> (x, y) \<in> walk_order"
  by (erule walk_rel.cases) (simp add: walk_decreases)

lemma walk_dom_all: "walk_dom x"
proof -
  have "wf {(x, y). walk_rel x y}"
    by (rule wf_subset [OF wf_walk_order]) (auto dest: walk_rel_order)
  then have "wfp walk_rel" by (simp add: wfp_def)
  then show ?thesis by (rule accp_wfpD)
qed

declare walk.simps [simp del]

section \<open>Unfolding the loop, and induction on its run\<close>


lemma walk_empty: "to_walk_paths s = [] \<Longrightarrow> walk adj to_target s = []"
  by (subst walk.simps) simp

lemma walk_raise: "to_walk_paths s = [] # rest \<Longrightarrow> walk adj to_target s = [Raise IndexError]"
  by (subst walk.simps) simp

lemma walk_expand:
  "to_walk_paths s = cur_path # rest \<Longrightarrow> cur_path \<noteq> [] \<Longrightarrow>
   walk adj to_target s
     = fst (loop_body adj to_target cur_path (s\<lparr>to_walk_paths := rest\<rparr>))
       @ walk adj to_target (snd (loop_body adj to_target cur_path (s\<lparr>to_walk_paths := rest\<rparr>)))"
  by (subst walk.simps) (simp add: Let_def)

lemma walk_skip:
  "to_walk_paths s = cur_path # rest \<Longrightarrow> cur_path \<noteq> [] \<Longrightarrow>
   current_edge cur_path \<in> visited_edges s \<Longrightarrow>
   walk adj to_target s = walk adj to_target (s\<lparr>to_walk_paths := rest\<rparr>)"
  by (simp add: walk_expand loop_body_skip)

lemma walk_state_induct [case_names empty raise skip expand]:
  assumes empty: "\<And>s. to_walk_paths s = [] \<Longrightarrow> P s"
    and raise: "\<And>s rest. to_walk_paths s = [] # rest \<Longrightarrow> P s"
    and skip: "\<And>s cur_path rest. to_walk_paths s = cur_path # rest \<Longrightarrow> cur_path \<noteq> [] \<Longrightarrow>
                 current_edge cur_path \<in> visited_edges s \<Longrightarrow>
                 P (s\<lparr>to_walk_paths := rest\<rparr>) \<Longrightarrow> P s"
    and expand: "\<And>s cur_path rest. to_walk_paths s = cur_path # rest \<Longrightarrow> cur_path \<noteq> [] \<Longrightarrow>
                 current_edge cur_path \<notin> visited_edges s \<Longrightarrow>
                 P (snd (loop_body adj to_target cur_path (s\<lparr>to_walk_paths := rest\<rparr>))) \<Longrightarrow> P s"
  shows "P s"
proof -
  have "a = adj \<Longrightarrow> t = to_target \<Longrightarrow> P s" for a t
  proof (induction a t s rule: walk.induct)
    case (1 a t s)
    show ?case
    proof (cases "to_walk_paths s")
      case Nil
      then show ?thesis by (rule empty)
    next
      case (Cons cur_path rest)
      show ?thesis
      proof (cases "cur_path = []")
        case True
        with Cons show ?thesis by (simp add: raise)
      next
        case ne: False
        have IH: "P (snd (loop_body adj to_target cur_path (s\<lparr>to_walk_paths := rest\<rparr>)))"
          using "1.IH" [OF Cons ne refl] "1.prems" by simp
        show ?thesis
        proof (cases "current_edge cur_path \<in> visited_edges s")
          case True
          with IH have "P (s\<lparr>to_walk_paths := rest\<rparr>)" by (simp add: loop_body_skip)
          from skip [OF Cons ne True this] show ?thesis .
        next
          case False
          from expand [OF Cons ne False IH] show ?thesis .
        qed
      qed
    qed
  qed
  then show ?thesis by simp
qed

section \<open>Invariants of the run\<close>

lemma extensions_nonempty: "p \<in> set (extensions hit to_target cur_path deps) \<Longrightarrow> p \<noteq> []"
  by (auto simp: extensions_def)

lemma walk_raised:
  "\<forall>p \<in> set (to_walk_paths s). p \<noteq> [] \<Longrightarrow> raised (walk adj to_target s) = []"
proof (induction s rule: walk_state_induct [where adj = adj and to_target = to_target])
  case (empty s)
  then show ?case by (simp add: walk_empty)
next
  case (raise s rest)
  then show ?case by simp
next
  case (skip s cur_path rest)
  then show ?case by (simp add: walk_skip)
next
  case (expand s cur_path rest)
  have "\<forall>p \<in> set (to_walk_paths (snd (loop_body adj to_target cur_path (s\<lparr>to_walk_paths := rest\<rparr>)))). p \<noteq> []"
    using expand.hyps expand.prems
    by (auto simp: loop_body_to_walk_paths dest: extensions_nonempty)
  with expand.IH show ?case
    using expand.hyps by (simp add: walk_expand raised_append loop_body_raised)
qed

lemma walk_expanded:
  "distinct (expanded (walk adj to_target s))
   \<and> set (expanded (walk adj to_target s)) \<inter> visited_edges s = {}"
proof (induction s rule: walk_state_induct [where adj = adj and to_target = to_target])
  case (empty s)
  then show ?case by (simp add: walk_empty)
next
  case (raise s rest)
  then show ?case by (simp add: walk_raise)
next
  case (skip s cur_path rest)
  then show ?case by (simp add: walk_skip)
next
  case (expand s cur_path rest)
  then show ?case
    by (simp add: walk_expand expanded_append loop_body_expanded loop_body_visited_edges)
qed

lemma walk_yielded_invariant:
  assumes init: "I (visited_edges s) (to_walk_paths s)"
    and nonempty: "\<And>V cur_path rest. I V (cur_path # rest) \<Longrightarrow> cur_path \<noteq> []"
    and skip: "\<And>V cur_path rest. I V (cur_path # rest) \<Longrightarrow> current_edge cur_path \<in> V \<Longrightarrow> I V rest"
    and expand: "\<And>V cur_path rest. I V (cur_path # rest) \<Longrightarrow> current_edge cur_path \<notin> V \<Longrightarrow>
                   I (insert (current_edge cur_path) V)
                     (rest @ extensions False to_target cur_path (successors adj cur_path))"
    and yield: "\<And>V cur_path rest p. I V (cur_path # rest) \<Longrightarrow> current_edge cur_path \<notin> V \<Longrightarrow>
                   p \<in> set (extensions True to_target cur_path (successors adj cur_path)) \<Longrightarrow> Q p"
  shows "\<forall>p \<in> set (yielded (walk adj to_target s)). Q p"
  using init
proof (induction s rule: walk_state_induct [where adj = adj and to_target = to_target])
  case (empty s)
  then show ?case by (simp add: walk_empty)
next
  case (raise s rest)
  then show ?case by (simp add: walk_raise)
next
  case (skip s cur_path rest)
  from skip.prems skip.hyps have "I (visited_edges s) (cur_path # rest)" by simp
  from skip.IH skip(1,2,3) assms(3) [OF this] show ?case
    by (simp add: walk_skip)
next
  case (expand s cur_path rest)
  let ?s' = "snd (loop_body adj to_target cur_path (s\<lparr>to_walk_paths := rest\<rparr>))"
  from expand.prems expand.hyps have I: "I (visited_edges s) (cur_path # rest)" by simp
  have "I (visited_edges ?s') (to_walk_paths ?s')"
    using assms(4) [OF I] expand.hyps
    by (simp add: loop_body_to_walk_paths loop_body_visited_edges)
  then have "\<forall>p \<in> set (yielded (walk adj to_target ?s')). Q p" by (rule expand.IH)
  moreover have "\<forall>p \<in> set (extensions True to_target cur_path (successors adj cur_path)). Q p"
    using yield [OF I] expand.hyps by blast
  ultimately show ?case
    using expand.hyps
    by (auto simp: walk_expand yielded_append loop_body_yielded)
qed

lemma length_extensions:
  "p \<in> set (extensions hit to_target cur_path deps) \<Longrightarrow> length p = Suc (length cur_path)"
  by (auto simp: extensions_def)

lemma sorted_length_const: "\<forall>p \<in> set ps. length p = n \<Longrightarrow> sorted (map length ps)"
  by (induction ps) auto

lemma sorted_length_append:
  "sorted (map length ps) \<Longrightarrow> sorted (map length qs) \<Longrightarrow>
   (\<forall>p \<in> set ps. \<forall>q \<in> set qs. length p \<le> length q) \<Longrightarrow> sorted (map length (ps @ qs))"
  by (simp add: sorted_append)

lemma levelled_tail: "levelled (c # rest) \<Longrightarrow> levelled rest"
  by (cases rest) (auto simp: levelled_def)

lemma levelled_extend:
  assumes "levelled (c # rest)" and "\<forall>p \<in> set ext. length p = Suc (length c)"
  shows "levelled (rest @ ext)" and "\<forall>p \<in> set (rest @ ext). length c \<le> length p"
proof -
  from assms(1) have r: "sorted (map length rest)" "\<forall>p \<in> set rest. length c \<le> length p"
    "\<forall>p \<in> set rest. length p \<le> Suc (length c)"
    by (auto simp: levelled_def)
  show ge: "\<forall>p \<in> set (rest @ ext). length c \<le> length p"
    using r(2) assms(2) by auto
  have le: "\<forall>p \<in> set (rest @ ext). length p \<le> Suc (length c)"
    using r(3) assms(2) by auto
  have "sorted (map length (rest @ ext))"
    using r(1,3) assms(2) sorted_length_const [of ext "Suc (length c)"]
    by (intro sorted_length_append) auto
  moreover have "\<forall>p \<in> set (rest @ ext). length p \<le> Suc (length (hd (rest @ ext)))"
  proof (cases "rest @ ext = []")
    case True then show ?thesis by simp
  next
    case False
    then have "hd (rest @ ext) \<in> set (rest @ ext)" by (rule hd_in_set)
    with ge have "length c \<le> length (hd (rest @ ext))" by blast
    with le show ?thesis by fastforce
  qed
  ultimately show "levelled (rest @ ext)" by (simp add: levelled_def)
qed

lemma walk_yielded_sorted:
  "levelled (to_walk_paths s) \<Longrightarrow>
   sorted (map length (yielded (walk adj to_target s)))
   \<and> (\<forall>p \<in> set (yielded (walk adj to_target s)). length (hd (to_walk_paths s)) < length p)"
proof (induction s rule: walk_state_induct [where adj = adj and to_target = to_target])
  case (empty s)
  then show ?case by (simp add: walk_empty)
next
  case (raise s rest)
  then show ?case by (simp add: walk_raise)
next
  case (skip s cur_path rest)
  from skip.prems skip.hyps(1) have lv: "levelled (cur_path # rest)" by simp
  then have "levelled rest" by (rule levelled_tail)
  with skip.IH have IH: "sorted (map length (yielded (walk adj to_target (s\<lparr>to_walk_paths := rest\<rparr>))))"
    "\<forall>p \<in> set (yielded (walk adj to_target (s\<lparr>to_walk_paths := rest\<rparr>))). length (hd rest) < length p"
    by simp_all
  have "length cur_path \<le> length (hd rest)" if "rest \<noteq> []"
    using lv that by (cases rest) (auto simp: levelled_def)
  moreover have "yielded (walk adj to_target (s\<lparr>to_walk_paths := rest\<rparr>)) = []" if "rest = []"
    using that by (simp add: walk_empty)
  ultimately have "\<forall>p \<in> set (yielded (walk adj to_target (s\<lparr>to_walk_paths := rest\<rparr>))). length cur_path < length p"
    using IH(2) by (cases "rest = []") fastforce+
  with IH(1) skip.hyps show ?case by (simp add: walk_skip)
next
  case (expand s cur_path rest)
  let ?ext = "extensions False to_target cur_path (successors adj cur_path)"
  let ?hits = "extensions True to_target cur_path (successors adj cur_path)"
  let ?s' = "snd (loop_body adj to_target cur_path (s\<lparr>to_walk_paths := rest\<rparr>))"
  from expand.prems expand.hyps(1) have lv: "levelled (cur_path # rest)" by simp
  have q: "to_walk_paths ?s' = rest @ ?ext"
    using expand.hyps by (simp add: loop_body_to_walk_paths)
  have ext: "\<forall>p \<in> set ?ext. length p = Suc (length cur_path)"
    by (simp add: length_extensions)
  have hits: "\<forall>p \<in> set ?hits. length p = Suc (length cur_path)"
    by (simp add: length_extensions)
  from levelled_extend [OF lv ext] have lv': "levelled (rest @ ?ext)"
    and ge: "\<forall>p \<in> set (rest @ ?ext). length cur_path \<le> length p" by blast+
  from expand.IH lv' q have IH: "sorted (map length (yielded (walk adj to_target ?s')))"
    "\<forall>p \<in> set (yielded (walk adj to_target ?s')). length (hd (rest @ ?ext)) < length p"
    by simp_all
  have later: "\<forall>p \<in> set (yielded (walk adj to_target ?s')). length cur_path < length p"
  proof (cases "rest @ ?ext = []")
    case True
    with q show ?thesis by (simp add: walk_empty)
  next
    case False
    then have "hd (rest @ ?ext) \<in> set (rest @ ?ext)" by (rule hd_in_set)
    with ge have "length cur_path \<le> length (hd (rest @ ?ext))" by blast
    with IH(2) show ?thesis by fastforce
  qed
  have y: "yielded (walk adj to_target s) = ?hits @ yielded (walk adj to_target ?s')"
    using expand.hyps by (simp add: walk_expand yielded_append loop_body_yielded)
  have "sorted (map length (?hits @ yielded (walk adj to_target ?s')))"
    using hits IH(1) later sorted_length_const [of ?hits "Suc (length cur_path)"]
    by (intro sorted_length_append) auto
  moreover have "\<forall>p \<in> set (?hits @ yielded (walk adj to_target ?s')). length cur_path < length p"
    using hits later by auto
  ultimately show ?case
    using expand.hyps(1) unfolding y by simp
qed

lemma path_edges_Cons2: "path_edges (a # b # r) = (a, b) # path_edges (b # r)"
  by (simp add: path_edges_def)

lemma path_edges_snoc:
  "p \<noteq> [] \<Longrightarrow> path_edges (p @ [x]) = path_edges p @ [(last p, x)]"
proof (induction p rule: list_nonempty_induct)
  case (single a)
  show ?case by (simp add: path_edges_def)
next
  case (cons a p')
  then obtain b r where "p' = b # r" by (cases p') auto
  with cons.IH show ?case by (simp add: path_edges_Cons2)
qed

lemma path_edges_single: "path_edges [x] = []"
  by (simp add: path_edges_def)

lemma path_edges_target: "(u, v) \<in> set (path_edges p) \<Longrightarrow> v \<in> set p"
  by (cases p) (auto simp: path_edges_def dest: set_zip_rightD)

lemma is_walk_nth:
  "is_walk adj p
     \<longleftrightarrow> (\<forall>i. Suc i < length p \<longrightarrow> p ! Suc i \<in> address ` set (dict_get adj (p ! i) []))"
proof
  assume w: "is_walk adj p"
  show "\<forall>i. Suc i < length p \<longrightarrow> p ! Suc i \<in> address ` set (dict_get adj (p ! i) [])"
  proof (intro allI impI)
    fix i assume i: "Suc i < length p"
    then have "(p ! i, tl p ! i) \<in> set (zip p (tl p))"
      by (auto simp: set_zip)
    moreover from i have "tl p ! i = p ! Suc i" by (simp add: nth_tl)
    ultimately show "p ! Suc i \<in> address ` set (dict_get adj (p ! i) [])"
      using w by (auto simp: is_walk_def path_edges_def)
  qed
next
  assume n: "\<forall>i. Suc i < length p \<longrightarrow> p ! Suc i \<in> address ` set (dict_get adj (p ! i) [])"
  show "is_walk adj p"
    unfolding is_walk_def path_edges_def
  proof (clarify)
    fix u v assume "(u, v) \<in> set (zip p (tl p))"
    then obtain i where i: "i < length (tl p)" "u = p ! i" "v = tl p ! i"
      by (auto simp: set_zip)
    then have "Suc i < length p" "v = p ! Suc i" by (simp_all add: nth_tl)
    with n i(2) show "v \<in> address ` set (dict_get adj u [])" by blast
  qed
qed

lemma extensionsE:
  assumes "p \<in> set (extensions hit to_target cur_path (successors adj cur_path))"
  obtains d where "d \<in> set (dict_get adj (last cur_path) [])" "p = cur_path @ [address d]"
    "(address d = to_target) = hit"
  using assms by (auto simp: extensions_def successors_def)

lemma is_walk_extension:
  assumes "is_walk adj cur_path" "cur_path \<noteq> []" "d \<in> set (dict_get adj (last cur_path) [])"
  shows "is_walk adj (cur_path @ [address d])"
  using assms by (auto simp: is_walk_def path_edges_snoc)

lemma walk_yielded_walks:
  assumes "from_target \<noteq> to_target"
    and "queue_walks adj from_target to_target (visited_edges s) (to_walk_paths s)"
  shows "\<forall>p \<in> set (yielded (walk adj to_target s)).
           hd p = from_target \<and> last p = to_target \<and> 2 \<le> length p \<and> is_walk adj p
           \<and> to_target \<notin> set (butlast p)"
proof (rule walk_yielded_invariant [where I = "queue_walks adj from_target to_target", OF assms(2)])
  fix V :: "'a edge set" and cur_path :: "'a list" and rest
  assume I: "queue_walks adj from_target to_target V (cur_path # rest)"
  then show "cur_path \<noteq> []" by (simp add: queue_walks_def)
  from I show "queue_walks adj from_target to_target V rest" by (simp add: queue_walks_def)
  from I have cur: "cur_path \<noteq> []" "hd cur_path = from_target" "to_target \<notin> set cur_path"
    "is_walk adj cur_path"
    by (simp_all add: queue_walks_def)
  show "queue_walks adj from_target to_target (insert (current_edge cur_path) V)
          (rest @ extensions False to_target cur_path (successors adj cur_path))"
    unfolding queue_walks_def
  proof
    fix p assume "p \<in> set (rest @ extensions False to_target cur_path (successors adj cur_path))"
    then consider "p \<in> set rest"
      | "p \<in> set (extensions False to_target cur_path (successors adj cur_path))" by auto
    then show "p \<noteq> [] \<and> hd p = from_target \<and> to_target \<notin> set p \<and> is_walk adj p"
    proof cases
      case 1
      with I show ?thesis by (simp add: queue_walks_def)
    next
      case 2
      then obtain d where d: "d \<in> set (dict_get adj (last cur_path) [])"
        "p = cur_path @ [address d]" "address d \<noteq> to_target"
        by (auto elim: extensionsE)
      with cur is_walk_extension [OF cur(4,1) d(1)] show ?thesis by simp
    qed
  qed
  fix p assume "p \<in> set (extensions True to_target cur_path (successors adj cur_path))"
  then obtain d where d: "d \<in> set (dict_get adj (last cur_path) [])"
    "p = cur_path @ [address d]" "address d = to_target"
    by (auto elim: extensionsE)
  with cur is_walk_extension [OF cur(4,1) d(1)]
  show "hd p = from_target \<and> last p = to_target \<and> 2 \<le> length p \<and> is_walk adj p
          \<and> to_target \<notin> set (butlast p)"
    by (cases cur_path) simp_all
qed

lemma fresh_current_edge:
  assumes "cur_path \<noteq> []" "distinct (path_edges (butlast cur_path))"
    and "\<forall>(u, v) \<in> set (path_edges (butlast cur_path)). (Some u, v) \<in> V"
    and "current_edge cur_path \<notin> V"
  shows "distinct (path_edges cur_path)"
    and "\<forall>(u, v) \<in> set (path_edges cur_path). (Some u, v) \<in> insert (current_edge cur_path) V"
proof -
  from assms(1) obtain ys y where c: "cur_path = ys @ [y]" by (cases cur_path rule: rev_cases) auto
  show "distinct (path_edges cur_path)"
  proof (cases "ys = []")
    case True
    with c show ?thesis by (simp add: path_edges_single)
  next
    case False
    with assms(2,3,4) c show ?thesis
      by (auto simp: path_edges_snoc current_edge_snoc)
  qed
  show "\<forall>(u, v) \<in> set (path_edges cur_path). (Some u, v) \<in> insert (current_edge cur_path) V"
  proof (cases "ys = []")
    case True
    with c show ?thesis by (simp add: path_edges_single)
  next
    case False
    with assms(3) c show ?thesis
      by (auto simp: path_edges_snoc current_edge_snoc)
  qed
qed

lemma walk_yielded_fresh:
  assumes "queue_fresh to_target (visited_edges s) (to_walk_paths s)"
  shows "\<forall>p \<in> set (yielded (walk adj to_target s)). distinct (path_edges p)"
proof (rule walk_yielded_invariant [where I = "queue_fresh to_target", OF assms])
  fix V :: "'a edge set" and cur_path :: "'a list" and rest
  assume I: "queue_fresh to_target V (cur_path # rest)"
  then show "cur_path \<noteq> []" by (simp add: queue_fresh_def)
  from I show "queue_fresh to_target V rest" by (simp add: queue_fresh_def)
  assume new: "current_edge cur_path \<notin> V"
  from I have cur: "cur_path \<noteq> []" "to_target \<notin> set cur_path"
    "distinct (path_edges (butlast cur_path))"
    "\<forall>(u, v) \<in> set (path_edges (butlast cur_path)). (Some u, v) \<in> V"
    by (simp_all add: queue_fresh_def)
  note fresh = fresh_current_edge [OF cur(1,3,4) new]
  show "queue_fresh to_target (insert (current_edge cur_path) V)
          (rest @ extensions False to_target cur_path (successors adj cur_path))"
    unfolding queue_fresh_def
  proof
    fix p assume "p \<in> set (rest @ extensions False to_target cur_path (successors adj cur_path))"
    then consider "p \<in> set rest"
      | "p \<in> set (extensions False to_target cur_path (successors adj cur_path))" by auto
    then show "p \<noteq> [] \<and> to_target \<notin> set p \<and> distinct (path_edges (butlast p))
        \<and> (\<forall>(u, v) \<in> set (path_edges (butlast p)).
              (Some u, v) \<in> insert (current_edge cur_path) V)"
    proof cases
      case 1
      with I show ?thesis by (auto simp: queue_fresh_def)
    next
      case 2
      then obtain d where d: "d \<in> set (dict_get adj (last cur_path) [])"
        "p = cur_path @ [address d]" "address d \<noteq> to_target"
        by (auto elim: extensionsE)
      with cur(2) fresh show ?thesis by simp
    qed
  qed
  fix p assume "p \<in> set (extensions True to_target cur_path (successors adj cur_path))"
  then obtain d where d: "d \<in> set (dict_get adj (last cur_path) [])"
    "p = cur_path @ [address d]" "address d = to_target"
    by (auto elim: extensionsE)
  have "(last cur_path, to_target) \<notin> set (path_edges cur_path)"
    using cur(2) by (auto dest: path_edges_target)
  with d fresh(1) cur(1) show "distinct (path_edges p)"
    by (simp add: path_edges_snoc)
qed

subsection \<open>The order of the yields\<close>

lemma branches_before_snoc:
  assumes "branches_before adj c c'"
  shows "branches_before adj (c @ [x]) (c' @ [y])"
proof -
  from assms obtain k where k: "1 \<le> k" "k < length c" "k < length c'" "take k c = take k c'"
    "c ! k \<noteq> c' ! k" "precedes (map address (dict_get adj (c ! (k - 1)) [])) (c ! k) (c' ! k)"
    by (auto simp: branches_before_def)
  then have "k \<in> {1..<min (length (c @ [x])) (length (c' @ [y]))}"
    "take k (c @ [x]) = take k (c' @ [y])" "(c @ [x]) ! k \<noteq> (c' @ [y]) ! k"
    "precedes (map address (dict_get adj ((c @ [x]) ! (k - 1)) [])) ((c @ [x]) ! k) ((c' @ [y]) ! k)"
    by (auto simp: nth_append)
  then show ?thesis unfolding branches_before_def by blast
qed

lemma branches_before_children:
  assumes "c \<noteq> []" "x \<noteq> y" "precedes (map address (dict_get adj (last c) [])) x y"
  shows "branches_before adj (c @ [x]) (c @ [y])"
proof -
  from assms have "length c \<in> {1..<min (length (c @ [x])) (length (c @ [y]))}"
    "take (length c) (c @ [x]) = take (length c) (c @ [y])"
    "(c @ [x]) ! length c \<noteq> (c @ [y]) ! length c"
    "precedes (map address (dict_get adj ((c @ [x]) ! (length c - 1)) []))
       ((c @ [x]) ! length c) ((c @ [y]) ! length c)"
    by (simp_all add: nth_append last_conv_nth Suc_le_eq)
  then show ?thesis unfolding branches_before_def by blast
qed

lemma tie_order_snoc: "tie_order adj c c' \<Longrightarrow> tie_order adj (c @ [x]) (c' @ [x])"
  by (auto simp: tie_order_def branches_before_snoc)

lemma precedes_nth: "i < j \<Longrightarrow> j < length l \<Longrightarrow> precedes l (l ! i) (l ! j)"
  by (auto simp: precedes_def)

lemma sorted_wrt_deps:
  "sorted_wrt (\<lambda>d e. address d = address e
                 \<or> precedes (map address deps) (address d) (address e)) deps"
proof -
  have "precedes (map address deps) (address (deps ! i)) (address (deps ! j))"
    if "i < j" "j < length deps" for i j
    using precedes_nth [of i j "map address deps"] that by simp
  then show ?thesis by (simp add: sorted_wrt_iff_nth_less)
qed

lemma sorted_wrt_extensions:
  assumes "cur_path \<noteq> []"
  shows "sorted_wrt (tie_order adj)
           (extensions hit to_target cur_path (successors adj cur_path))"
proof -
  let ?deps = "successors adj cur_path"
  have "sorted_wrt (\<lambda>d e. tie_order adj (cur_path @ [address d]) (cur_path @ [address e])) ?deps"
  proof (rule sorted_wrt_mono_rel [OF _ sorted_wrt_deps])
    fix d e assume "address d = address e
                 \<or> precedes (map address ?deps) (address d) (address e)"
    then show "tie_order adj (cur_path @ [address d]) (cur_path @ [address e])"
      using branches_before_children [OF assms, of "address d" "address e" adj]
      by (auto simp: tie_order_def successors_def)
  qed
  then show ?thesis
    by (simp add: extensions_def sorted_wrt_map sorted_wrt_filter)
qed

lemma ordered_queue_skip: "ordered_queue adj V (cur_path # rest) \<Longrightarrow> ordered_queue adj V rest"
  by (auto simp: ordered_queue_def dest: levelled_tail)

lemma levelled_bounds:
  "levelled (c # rest) \<Longrightarrow> r \<in> set rest \<Longrightarrow> length c \<le> length r \<and> length r \<le> Suc (length c)"
  by (auto simp: levelled_def)

lemma ordered_queue_expand:
  assumes inv: "ordered_queue adj V (cur_path # rest)" and new: "current_edge cur_path \<notin> V"
  shows "ordered_queue adj (insert (current_edge cur_path) V)
           (rest @ extensions False to_target cur_path (successors adj cur_path))"
proof -
  let ?ext = "extensions False to_target cur_path (successors adj cur_path)"
  from inv have lv: "levelled (cur_path # rest)" and ne: "cur_path \<noteq> []"
    and el: "\<forall>e \<in> set rest. e \<noteq> [] \<and> (2 \<le> length e \<longrightarrow> current_edge (butlast e) \<in> V)"
    and srt: "sorted_wrt (queue_order adj) rest"
    and hd: "\<forall>r \<in> set rest. queue_order adj cur_path r"
    by (auto simp: ordered_queue_def)
  have ext: "\<forall>p \<in> set ?ext. length p = Suc (length cur_path)"
    by (simp add: length_extensions)
  have bl: "butlast n = cur_path" if "n \<in> set ?ext" for n
    using that by (auto elim: extensionsE)
  have "levelled (rest @ ?ext)"
    by (rule levelled_extend(1) [OF lv ext])
  moreover have "\<forall>e \<in> set (rest @ ?ext).
      e \<noteq> [] \<and> (2 \<le> length e \<longrightarrow> current_edge (butlast e) \<in> insert (current_edge cur_path) V)"
    using el bl by (auto dest: extensions_nonempty)
  moreover have "sorted_wrt (queue_order adj) (rest @ ?ext)"
    unfolding sorted_wrt_append
  proof (intro conjI ballI)
    show "sorted_wrt (queue_order adj) rest" by (rule srt)
    show "sorted_wrt (queue_order adj) ?ext"
    proof (rule sorted_wrt_mono_rel [OF _ sorted_wrt_extensions [OF ne]])
      fix x y assume "x \<in> set ?ext" "y \<in> set ?ext" "tie_order adj x y"
      with ext show "queue_order adj x y" by (simp add: queue_order_def)
    qed
  next
    fix r n assume r: "r \<in> set rest" and n: "n \<in> set ?ext"
    from levelled_bounds [OF lv r] have len: "length cur_path \<le> length r"
      "length r \<le> Suc (length cur_path)" by simp_all
    from n ext have ln: "length n = Suc (length cur_path)" by blast
    from n obtain x where nx: "n = cur_path @ [x]"
      by (auto simp: extensions_def)
    from hd r have q: "queue_order adj cur_path r" by blast
    show "queue_order adj r n"
    proof (cases "length r = length cur_path")
      case True
      with q have "tie_order adj cur_path r" by (simp add: queue_order_def)
      with True ln bl [OF n] show ?thesis by (simp add: queue_order_def)
    next
      case False
      with len have lr: "length r = Suc (length cur_path)" by simp
      from el r have "r \<noteq> []" by blast
      then have rs: "r = butlast r @ [last r]" by simp
      from lr ne have "2 \<le> length r" by (cases cur_path) auto
      with el r have "current_edge (butlast r) \<in> V" by blast
      with new have "butlast r \<noteq> cur_path" by auto
      moreover from q lr have "tie_order adj (butlast r) cur_path"
        by (simp add: queue_order_def)
      ultimately have "branches_before adj (butlast r) cur_path"
        by (simp add: tie_order_def)
      then have "branches_before adj (butlast r @ [last r]) (cur_path @ [x])"
        by (rule branches_before_snoc)
      with rs nx have "tie_order adj r n" by (simp add: tie_order_def)
      with lr ln show ?thesis by (simp add: queue_order_def)
    qed
  qed
  ultimately show ?thesis by (simp add: ordered_queue_def)
qed

lemma walk_yielded_tie_order:
  "ordered_queue adj (visited_edges s) (to_walk_paths s) \<Longrightarrow>
   sorted_wrt (\<lambda>p q. length p = length q \<longrightarrow> tie_order adj p q) (yielded (walk adj to_target s))
   \<and> (\<forall>y \<in> set (yielded (walk adj to_target s)).
         last y = to_target \<and> (\<exists>c \<in> set (to_walk_paths s). \<exists>t. t \<noteq> [] \<and> y = c @ t))"
proof (induction s rule: walk_state_induct [where adj = adj and to_target = to_target])
  case (empty s)
  then show ?case by (simp add: walk_empty)
next
  case (raise s rest)
  then show ?case by (simp add: walk_raise)
next
  case (skip s cur_path rest)
  from skip.prems skip.hyps(1) have "ordered_queue adj (visited_edges s) (cur_path # rest)" by simp
  then have "ordered_queue adj (visited_edges s) rest" by (rule ordered_queue_skip)
  with skip.IH skip.hyps show ?case by (auto simp: walk_skip)
next
  case (expand s cur_path rest)
  let ?ext = "extensions False to_target cur_path (successors adj cur_path)"
  let ?hits = "extensions True to_target cur_path (successors adj cur_path)"
  let ?s' = "snd (loop_body adj to_target cur_path (s\<lparr>to_walk_paths := rest\<rparr>))"
  let ?R = "\<lambda>p q. length p = length q \<longrightarrow> tie_order adj p q"
  from expand.prems expand.hyps(1) have inv: "ordered_queue adj (visited_edges s) (cur_path # rest)"
    by simp
  then have lv: "levelled (cur_path # rest)"
    and hd: "\<forall>r \<in> set rest. queue_order adj cur_path r"
    by (auto simp: ordered_queue_def)
  have q: "to_walk_paths ?s' = rest @ ?ext"
    using expand.hyps by (simp add: loop_body_to_walk_paths)
  have v: "visited_edges ?s' = insert (current_edge cur_path) (visited_edges s)"
    using expand.hyps by (simp add: loop_body_visited_edges)
  have "ordered_queue adj (visited_edges ?s') (to_walk_paths ?s')"
    unfolding q v by (rule ordered_queue_expand [OF inv expand.hyps(3)])
  with expand.IH have IH: "sorted_wrt ?R (yielded (walk adj to_target ?s'))"
    "\<forall>y \<in> set (yielded (walk adj to_target ?s')).
         last y = to_target \<and> (\<exists>c \<in> set (rest @ ?ext). \<exists>t. t \<noteq> [] \<and> y = c @ t)"
    unfolding q by simp_all
  have y: "yielded (walk adj to_target s) = ?hits @ yielded (walk adj to_target ?s')"
    using expand.hyps by (simp add: walk_expand yielded_append loop_body_yielded)
  have hits: "h = cur_path @ [to_target]" if "h \<in> set ?hits" for h
    using that by (auto simp: extensions_def)
  have "sorted_wrt ?R ?hits"
    by (rule sorted_wrt_mono_rel [OF _ sorted_wrt_extensions [OF expand.hyps(2)]]) simp
  moreover have "?R h y" if h: "h \<in> set ?hits" and y: "y \<in> set (yielded (walk adj to_target ?s'))"
    for h y
  proof
    assume eq: "length h = length y"
    from IH(2) y obtain c t where c: "c \<in> set (rest @ ?ext)" "t \<noteq> []" "y = c @ t"
      "last y = to_target" by blast
    from eq hits [OF h] c(2,3) have lc: "length c < Suc (length cur_path)"
      by (cases t) auto
    with c(1) have cr: "c \<in> set rest"
      by (auto dest: length_extensions)
    from levelled_bounds [OF lv cr] lc have lcc: "length c = length cur_path" by simp
    with eq hits [OF h] c(3) have "length t = 1" by simp
    with c(3,4) have yc: "y = c @ [to_target]" by (cases t) auto
    from hd cr lcc have "tie_order adj cur_path c" by (simp add: queue_order_def)
    then show "tie_order adj h y"
      unfolding hits [OF h] yc by (rule tie_order_snoc)
  qed
  ultimately have "sorted_wrt ?R (?hits @ yielded (walk adj to_target ?s'))"
    using IH(1) by (simp add: sorted_wrt_append)
  moreover have "\<forall>y \<in> set (?hits @ yielded (walk adj to_target ?s')).
         last y = to_target \<and> (\<exists>c \<in> set (cur_path # rest). \<exists>t. t \<noteq> [] \<and> y = c @ t)"
  proof
    fix y assume "y \<in> set (?hits @ yielded (walk adj to_target ?s'))"
    then consider "y \<in> set ?hits" | "y \<in> set (yielded (walk adj to_target ?s'))" by auto
    then show "last y = to_target \<and> (\<exists>c \<in> set (cur_path # rest). \<exists>t. t \<noteq> [] \<and> y = c @ t)"
    proof cases
      case 1
      from hits [OF 1] show ?thesis by auto
    next
      case 2
      with IH(2) obtain c t where c: "c \<in> set (rest @ ?ext)" "t \<noteq> []" "y = c @ t"
        "last y = to_target" by blast
      from c(1) consider "c \<in> set rest" | "c \<in> set ?ext" by auto
      then show ?thesis
      proof cases
        case 1
        with c show ?thesis by auto
      next
        case 2
        then obtain x where "c = cur_path @ [x]" by (auto simp: extensions_def)
        with c(3) have "y = cur_path @ (x # t)" by simp
        with c(4) show ?thesis by auto
      qed
    qed
  qed
  ultimately show ?case
    using expand.hyps(1) unfolding y by simp
qed

lemma in_order_mem: "in_order es (x # xs) \<Longrightarrow> x \<in> set es"
  by (induction es) (auto split: if_splits)

lemma in_order_replicate: "in_order (e # es) (replicate n e @ xs) = in_order (e # es) xs"
  by (induction n) simp_all

lemma in_order_Cons_fresh:
  assumes "in_order es xs" "e \<notin> set es"
  shows "in_order (e # es) xs"
proof (cases xs)
  case Nil
  then show ?thesis by simp
next
  case (Cons x xs')
  with assms(1) have "x \<in> set es" by (auto dest: in_order_mem)
  with assms Cons show ?thesis by auto
qed

lemma hits_replicate:
  "map (\<lambda>p. current_edge (butlast p)) (extensions True to_target cur_path deps)
     = replicate (length (extensions True to_target cur_path deps)) (current_edge cur_path)"
  by (induction deps) (auto simp: extensions_def)

lemma walk_yielded_in_order:
  "in_order (expanded (walk adj to_target s))
     (map (\<lambda>p. current_edge (butlast p)) (yielded (walk adj to_target s)))"
proof (induction s rule: walk_state_induct [where adj = adj and to_target = to_target])
  case (empty s)
  then show ?case by (simp add: walk_empty)
next
  case (raise s rest)
  then show ?case by (simp add: walk_raise)
next
  case (skip s cur_path rest)
  then show ?case by (simp add: walk_skip)
next
  case (expand s cur_path rest)
  let ?s' = "snd (loop_body adj to_target cur_path (s\<lparr>to_walk_paths := rest\<rparr>))"
  have "set (expanded (walk adj to_target ?s')) \<inter> visited_edges ?s' = {}"
    using walk_expanded [of adj to_target ?s'] by simp
  then have "current_edge cur_path \<notin> set (expanded (walk adj to_target ?s'))"
    using expand.hyps by (auto simp: loop_body_visited_edges)
  from in_order_Cons_fresh [OF expand.IH this] show ?case
    using expand.hyps
    by (simp add: walk_expand yielded_append expanded_append loop_body_yielded
          loop_body_expanded hits_replicate in_order_replicate)
qed

text \<open>The expanded edges are edges of the map, or the edge \<open>(None, from_target)\<close> of the root.\<close>

lemma walk_expanded_unvisited: "set (expanded (walk adj to_target s)) \<subseteq> unvisited adj s"
proof (induction s rule: walk_state_induct [where adj = adj and to_target = to_target])
  case (empty s)
  then show ?case by (simp add: walk_empty)
next
  case (raise s rest)
  then show ?case by (simp add: walk_raise)
next
  case (skip s cur_path rest)
  with unvisited_skip [OF skip.hyps(1,3), of adj] show ?case
    by (auto simp: walk_skip)
next
  case (expand s cur_path rest)
  have "current_edge cur_path \<in> unvisited adj s"
    using expand.hyps by (simp add: unvisited_def)
  with expand.IH unvisited_expand [OF expand.hyps, of adj to_target] show ?case
    using expand.hyps by (auto simp: walk_expand expanded_append loop_body_expanded)
qed

lemma find_paths_breadth_first_expansions:
  "length (expanded (find_paths_breadth_first adjacency_lists from_target to_target))
     \<le> Suc (card (adjacency_edges adjacency_lists))"
proof (cases "from_target = to_target")
  case True
  then show ?thesis by (simp add: find_paths_breadth_first_def)
next
  case False
  let ?s = "\<lparr>visited_edges = {}, to_walk_paths = [[from_target]], paths_found = 0,
              edges_visited = 0, last_progress_update = 0\<rparr>"
  let ?es = "expanded (walk adjacency_lists to_target ?s)"
  have "distinct ?es" by (simp add: walk_expanded)
  then have "length ?es = card (set ?es)" by (simp add: distinct_card)
  also have "\<dots> \<le> card (unvisited adjacency_lists ?s)"
    by (rule card_mono [OF finite_unvisited walk_expanded_unvisited])
  also have "\<dots> \<le> Suc (card (adjacency_edges adjacency_lists))"
    by (simp add: unvisited_def card_insert_le_m1 finite_adjacency_edges card_insert_if)
  finally show ?thesis using False by (simp add: find_paths_breadth_first_def)
qed

section \<open>Properties of \<open>find_paths_breadth_first\<close>\<close>

text \<open>
  C8: for every adjacency map and every node \<open>X\<close>, the run from \<open>X\<close> to \<open>X\<close> yields the
  path \<open>[X]\<close> and does nothing else: the whole sequence of its events is that one yield,
  whatever the map is, so no edge is expanded and the map is not read.
\<close>

theorem self_path: "find_paths_breadth_first adjacency_lists X X = [Yield [X]]"
  by (simp add: find_paths_breadth_first_def)

text \<open>
  C7: on the diamond with the successors of \<open>A\<close> in the order \<open>B, C\<close>, the run from \<open>A\<close> to
  \<open>D\<close> yields exactly \<open>[A, B, D]\<close> and then \<open>[A, C, D]\<close>.
\<close>

theorem diamond_paths:
  "yielded (find_paths_breadth_first diamond ''A'' ''D'')
     = [[''A'', ''B'', ''D''], [''A'', ''C'', ''D'']]"
  by code_simp

lemma find_paths_breadth_first_raised:
  "raised (find_paths_breadth_first adjacency_lists from_target to_target) = []"
  by (simp add: find_paths_breadth_first_def walk_raised)

text \<open>
  C2: the paths are yielded in non-decreasing order of length: a path yielded before
  another one is not longer than it. Among paths of equal length the order follows the
  order of the successors and the order in which the predecessors leave the queue: of two
  different yielded paths of one length the earlier branches before the later (where the
  two part, its node precedes the other among the successors of their last common node);
  and the yields follow the order in which the edges of their predecessors (the path
  without its last node) are expanded. On the diamond with the successors of \<open>A\<close> in the
  order \<open>C, B\<close> the two paths of length 3 come in that order.
\<close>

theorem yielded_shortest_first:
  "(\<forall>i j. i < j \<and> j < length (yielded (find_paths_breadth_first adjacency_lists from_target to_target))
      \<longrightarrow> length (yielded (find_paths_breadth_first adjacency_lists from_target to_target) ! i)
            \<le> length (yielded (find_paths_breadth_first adjacency_lists from_target to_target) ! j)
          \<and> (length (yielded (find_paths_breadth_first adjacency_lists from_target to_target) ! i)
               = length (yielded (find_paths_breadth_first adjacency_lists from_target to_target) ! j)
             \<longrightarrow> yielded (find_paths_breadth_first adjacency_lists from_target to_target) ! i
                   = yielded (find_paths_breadth_first adjacency_lists from_target to_target) ! j
                 \<or> branches_before adjacency_lists
                     (yielded (find_paths_breadth_first adjacency_lists from_target to_target) ! i)
                     (yielded (find_paths_breadth_first adjacency_lists from_target to_target) ! j)))
   \<and> (from_target \<noteq> to_target
        \<longrightarrow> in_order (expanded (find_paths_breadth_first adjacency_lists from_target to_target))
              (map (\<lambda>p. current_edge (butlast p))
                 (yielded (find_paths_breadth_first adjacency_lists from_target to_target))))
   \<and> yielded (find_paths_breadth_first diamond_rev ''A'' ''D'')
       = [[''A'', ''C'', ''D''], [''A'', ''B'', ''D'']]"
proof (intro conjI allI impI)
  let ?ys = "yielded (find_paths_breadth_first adjacency_lists from_target to_target)"
  let ?s = "\<lparr>visited_edges = {}, to_walk_paths = [[from_target]], paths_found = 0,
              edges_visited = (0::int), last_progress_update = (0::int)\<rparr>"
  have srt: "sorted (map length ?ys)"
  proof (cases "from_target = to_target")
    case True
    then show ?thesis by (simp add: find_paths_breadth_first_def)
  next
    case False
    have "levelled [[from_target]]" by (simp add: levelled_def)
    with False show ?thesis
      by (simp add: find_paths_breadth_first_def walk_yielded_sorted)
  qed
  have tie: "sorted_wrt (\<lambda>p q. length p = length q \<longrightarrow> tie_order adjacency_lists p q) ?ys"
  proof (cases "from_target = to_target")
    case True
    then show ?thesis by (simp add: find_paths_breadth_first_def)
  next
    case False
    have "ordered_queue adjacency_lists (visited_edges ?s) (to_walk_paths ?s)"
      by (simp add: ordered_queue_def levelled_def)
    from walk_yielded_tie_order [OF this, of to_target] False show ?thesis
      by (simp add: find_paths_breadth_first_def)
  qed
  fix i j assume ij: "i < j \<and> j < length ?ys"
  from sorted_nth_mono [OF srt, of i j] ij show "length (?ys ! i) \<le> length (?ys ! j)" by simp
  assume "length (?ys ! i) = length (?ys ! j)"
  with tie ij show "?ys ! i = ?ys ! j \<or> branches_before adjacency_lists (?ys ! i) (?ys ! j)"
    by (auto simp: sorted_wrt_iff_nth_less tie_order_def)
next
  assume "from_target \<noteq> to_target"
  then show "in_order (expanded (find_paths_breadth_first adjacency_lists from_target to_target))
              (map (\<lambda>p. current_edge (butlast p))
                 (yielded (find_paths_breadth_first adjacency_lists from_target to_target)))"
    by (simp add: find_paths_breadth_first_def walk_yielded_in_order)
next
  show "yielded (find_paths_breadth_first diamond_rev ''A'' ''D'')
       = [[''A'', ''C'', ''D''], [''A'', ''B'', ''D'']]"
    by code_simp
qed

theorem yielded_shortest_first_witness:
  "length (yielded (find_paths_breadth_first cyclic ''A'' ''C'') ! 0)
     \<le> length (yielded (find_paths_breadth_first cyclic ''A'' ''C'') ! 1)
   \<and> yielded (find_paths_breadth_first diamond ''A'' ''D'') ! 0 = [''A'', ''B'', ''D'']
   \<and> yielded (find_paths_breadth_first diamond ''A'' ''D'') ! 1 = [''A'', ''C'', ''D'']
   \<and> branches_before diamond [''A'', ''B'', ''D''] [''A'', ''C'', ''D'']
   \<and> in_order (expanded (find_paths_breadth_first diamond ''A'' ''D''))
       [(Some ''A'', ''B''), (Some ''A'', ''C'')]"
proof -
  have l: "1 < length (yielded (find_paths_breadth_first cyclic ''A'' ''C''))"
    by code_simp
  have d: "yielded (find_paths_breadth_first diamond ''A'' ''D'')
             = [[''A'', ''B'', ''D''], [''A'', ''C'', ''D'']]"
    by code_simp
  have ne: "''A'' \<noteq> ''D''" by simp
  note c = yielded_shortest_first [of cyclic "''A''" "''C''"]
  note t = yielded_shortest_first [of diamond "''A''" "''D''"]
  from c [THEN conjunct1, rule_format, of 0 1] l
  have "length (yielded (find_paths_breadth_first cyclic ''A'' ''C'') ! 0)
     \<le> length (yielded (find_paths_breadth_first cyclic ''A'' ''C'') ! 1)"
    by simp
  moreover from t [THEN conjunct1, rule_format, of 0 1]
  have "branches_before diamond [''A'', ''B'', ''D''] [''A'', ''C'', ''D'']"
    unfolding d by simp
  moreover from t ne d have "in_order (expanded (find_paths_breadth_first diamond ''A'' ''D''))
       [(Some ''A'', ''B''), (Some ''A'', ''C'')]"
    by (simp add: current_edge_def)
  ultimately show ?thesis using d by simp
qed

text \<open>
  C3, amended: for every adjacency map and every state of the loop (so for every root and
  destination, cycles or not) the loop terminates, the run ends with the queue empty,
  not with an exception, and it expands at most one edge more than the map has (the edge
  of the root); on the graph \<open>A \<rightarrow> B, B \<rightarrow> A, A \<rightarrow> C\<close> with root \<open>A\<close> and
  destination \<open>C\<close> it yields two paths, \<open>[A, C]\<close> and then \<open>[A, B, A, C]\<close>: the edge
  \<open>(B, A)\<close> is not the edge \<open>(None, A)\<close> of the root, so \<open>A\<close> is expanded a second time.
\<close>

theorem walk_terminates:
  "walk_dom (adjacency_lists, to_target, s)
   \<and> raised (find_paths_breadth_first adjacency_lists from_target to_target) = []
   \<and> length (expanded (find_paths_breadth_first adjacency_lists from_target to_target))
       \<le> Suc (card (adjacency_edges adjacency_lists))
   \<and> yielded (find_paths_breadth_first cyclic ''A'' ''C'')
       = [[''A'', ''C''], [''A'', ''B'', ''A'', ''C'']]"
proof (intro conjI)
  show "walk_dom (adjacency_lists, to_target, s)" by (rule walk_dom_all)
  show "raised (find_paths_breadth_first adjacency_lists from_target to_target) = []"
    by (rule find_paths_breadth_first_raised)
  show "length (expanded (find_paths_breadth_first adjacency_lists from_target to_target))
       \<le> Suc (card (adjacency_edges adjacency_lists))"
    by (rule find_paths_breadth_first_expansions)
  show "yielded (find_paths_breadth_first cyclic ''A'' ''C'')
       = [[''A'', ''C''], [''A'', ''B'', ''A'', ''C'']]"
    by code_simp
qed

text \<open>
  The claim C3 as stated, that the run on that graph yields the one path \<open>[A, C]\<close>, fails
  for both orders of the successors of \<open>A\<close>.
\<close>

theorem cyclic_not_single_path:
  "yielded (find_paths_breadth_first cyclic ''A'' ''C'') \<noteq> [[''A'', ''C'']]
   \<and> yielded (find_paths_breadth_first cyclic_rev ''A'' ''C'') \<noteq> [[''A'', ''C'']]"
  by code_simp

text \<open>
  C4: in one run no edge \<open>(prev_target, target)\<close> is expanded more than once: the edges
  for which the body of \<open>if current_edge not in visited_edges\<close> ran are pairwise different.
\<close>

theorem expanded_once:
  "distinct (expanded (find_paths_breadth_first adjacency_lists from_target to_target))"
  by (simp add: find_paths_breadth_first_def walk_expanded)

text \<open>
  C5: no yielded path has the same ordered pair of consecutive nodes at two positions;
  but a yielded path may have a node twice, as \<open>[A, B, A, C]\<close> on the cyclic graph.
\<close>

theorem yielded_no_repeated_edge:
  "(\<forall>p \<in> set (yielded (find_paths_breadth_first adjacency_lists from_target to_target)).
      distinct (path_edges p))
   \<and> (\<exists>p \<in> set (yielded (find_paths_breadth_first cyclic ''A'' ''C'')). \<not> distinct p)"
proof
  show "\<forall>p \<in> set (yielded (find_paths_breadth_first adjacency_lists from_target to_target)).
      distinct (path_edges p)"
  proof (cases "from_target = to_target")
    case True
    then show ?thesis by (simp add: find_paths_breadth_first_def path_edges_single)
  next
    case False
    have "\<forall>p \<in> set (yielded (walk adjacency_lists to_target
             \<lparr>visited_edges = {}, to_walk_paths = [[from_target]], paths_found = 0,
              edges_visited = 0, last_progress_update = 0\<rparr>)). distinct (path_edges p)"
      using False by (intro walk_yielded_fresh) (simp add: queue_fresh_def path_edges_def)
    with False show ?thesis
      by (simp add: find_paths_breadth_first_def)
  qed
  have "[''A'', ''B'', ''A'', ''C''] \<in> set (yielded (find_paths_breadth_first cyclic ''A'' ''C''))"
    by code_simp
  moreover have "\<not> distinct [''A'', ''B'', ''A'', ''C'']" by simp
  ultimately show "\<exists>p \<in> set (yielded (find_paths_breadth_first cyclic ''A'' ''C'')). \<not> distinct p"
    by blast
qed

theorem yielded_no_repeated_edge_witness:
  "[''A'', ''B'', ''A'', ''C''] \<in> set (yielded (find_paths_breadth_first cyclic ''A'' ''C''))
   \<and> distinct (path_edges [''A'', ''B'', ''A'', ''C''])"
proof -
  have m: "[''A'', ''B'', ''A'', ''C''] \<in> set (yielded (find_paths_breadth_first cyclic ''A'' ''C''))"
    by code_simp
  with yielded_no_repeated_edge [of cyclic "''A''" "''C''"] show ?thesis by blast
qed

text \<open>
  C6: when the root is not the destination, every yielded path is a walk of the map from
  the root to the destination: it starts at the root, ends at the destination, has at
  least two nodes, every node after the first is among the dependencies
  \<open>adjacency_lists.get(_, [])\<close> of the node before it, and the destination is at no
  position but the last.
\<close>

theorem yielded_is_walk:
  assumes "from_target \<noteq> to_target"
    and "p \<in> set (yielded (find_paths_breadth_first adjacency_lists from_target to_target))"
  shows "hd p = from_target \<and> last p = to_target \<and> 2 \<le> length p
         \<and> (\<forall>i. Suc i < length p
                \<longrightarrow> p ! Suc i \<in> address ` set (dict_get adjacency_lists (p ! i) []))
         \<and> to_target \<notin> set (butlast p)"
proof -
  have "\<forall>p \<in> set (yielded (walk adjacency_lists to_target
           \<lparr>visited_edges = {}, to_walk_paths = [[from_target]], paths_found = 0,
            edges_visited = 0, last_progress_update = 0\<rparr>)).
           hd p = from_target \<and> last p = to_target \<and> 2 \<le> length p \<and> is_walk adjacency_lists p
           \<and> to_target \<notin> set (butlast p)"
    using assms(1)
    by (intro walk_yielded_walks) (simp_all add: queue_walks_def is_walk_def path_edges_def)
  with assms show ?thesis by (simp add: find_paths_breadth_first_def is_walk_nth)
qed

theorem yielded_is_walk_witness:
  "''A'' \<noteq> ''D''
   \<and> [''A'', ''B'', ''D''] \<in> set (yielded (find_paths_breadth_first diamond ''A'' ''D''))
   \<and> hd [''A'', ''B'', ''D''] = ''A'' \<and> last [''A'', ''B'', ''D''] = ''D''
   \<and> ''B'' \<in> address ` set (dict_get diamond ''A'' [])
   \<and> ''D'' \<in> address ` set (dict_get diamond ''B'' [])
   \<and> ''D'' \<notin> set (butlast [''A'', ''B'', ''D''])"
proof -
  have ne: "''A'' \<noteq> ''D''" by simp
  have m: "[''A'', ''B'', ''D''] \<in> set (yielded (find_paths_breadth_first diamond ''A'' ''D''))"
    by code_simp
  let ?p = "[''A'', ''B'', ''D'']"
  from yielded_is_walk [OF ne m]
  have w: "\<forall>i. Suc i < length ?p \<longrightarrow> ?p ! Suc i \<in> address ` set (dict_get diamond (?p ! i) [])"
    by blast
  from w [rule_format, of 0] w [rule_format, of 1] ne m show ?thesis by simp
qed

section \<open>Properties of the rules\<close>

lemma awaited_transitive_targets_append:
  "awaited_transitive_targets (xs @ ys) = awaited_transitive_targets xs @ awaited_transitive_targets ys"
  by (induction xs) (simp_all split: effect.split)

lemma awaited_dependencies_append:
  "awaited_dependencies (xs @ ys) = awaited_dependencies xs @ awaited_dependencies ys"
  by (induction xs) (simp_all split: effect.split)

lemma written_stdout_append:
  "written_stdout (xs @ ys) = written_stdout xs @ written_stdout ys"
  by (induction xs) (simp_all split: effect.split)

lemma awaited_transitive_targets_stderr: "awaited_transitive_targets (map Console_stderr ms) = []"
  by (induction ms) simp_all

lemma awaited_dependencies_stderr: "awaited_dependencies (map Console_stderr ms) = []"
  by (induction ms) simp_all

lemma written_stdout_stderr: "written_stdout (map Console_stderr ms) = []"
  by (induction ms) simp_all

lemma awaited_transitive_targets_deps:
  "awaited_transitive_targets (map (\<lambda>t. Await_dependencies (f t)) ts) = []"
  by (induction ts) simp_all

lemma awaited_dependencies_deps:
  "awaited_dependencies (map (\<lambda>t. Await_dependencies (f t)) ts) = map f ts"
  by (induction ts) simp_all

lemma written_stdout_deps:
  "written_stdout (map (\<lambda>t. Await_dependencies (f t)) ts) = []"
  by (induction ts) simp_all

lemma pair_paths:
  "paths (snd (get_paths_between_root_and_destination eng pair))
     = discovered eng (root pair) (destination pair)"
  by (simp add: get_paths_between_root_and_destination_def Let_def discovered_def
        adjacency_lists_of_def)

lemma pair_awaited_transitive_targets:
  "awaited_transitive_targets (fst (get_paths_between_root_and_destination eng pair))
     = [[address (root pair)]]"
  by (simp add: get_paths_between_root_and_destination_def Let_def
        awaited_transitive_targets_append awaited_transitive_targets_stderr
        awaited_transitive_targets_deps)

lemma pair_awaited_dependencies:
  "awaited_dependencies (fst (get_paths_between_root_and_destination eng pair))
     = map address (transitive_targets_closure eng [address (root pair)])"
  by (simp add: get_paths_between_root_and_destination_def Let_def
        awaited_dependencies_append awaited_dependencies_stderr
        awaited_dependencies_deps)

lemma pair_written_stdout:
  "written_stdout (fst (get_paths_between_root_and_destination eng pair)) = []"
  by (simp add: get_paths_between_root_and_destination_def Let_def
        written_stdout_append written_stdout_stderr written_stdout_deps)

lemma destinations_awaited_transitive_targets:
  "awaited_transitive_targets
     (concat (map (\<lambda>d. fst (get_paths_between_root_and_destination eng
                               \<lparr>root = r, destination = d\<rparr>)) ds))
     = replicate (length ds) [address r]"
  by (induction ds)
     (simp_all add: awaited_transitive_targets_append pair_awaited_transitive_targets)

lemma destinations_awaited_dependencies:
  "awaited_dependencies
     (concat (map (\<lambda>d. fst (get_paths_between_root_and_destination eng
                               \<lparr>root = r, destination = d\<rparr>)) ds))
     = concat (replicate (length ds) (map address (transitive_targets_closure eng [address r])))"
  by (induction ds)
     (simp_all add: awaited_dependencies_append pair_awaited_dependencies)

lemma destinations_written_stdout:
  "written_stdout
     (concat (map (\<lambda>d. fst (get_paths_between_root_and_destination eng
                               \<lparr>root = r, destination = d\<rparr>)) ds)) = []"
  by (induction ds) (simp_all add: written_stdout_append pair_written_stdout)

lemma collection_paths:
  "map paths (spec_paths (snd (get_paths_between_root_and_destinations eng pair)))
     = map (discovered eng (root_of pair)) (destinations pair)"
  by (simp add: get_paths_between_root_and_destinations_def Let_def comp_def pair_paths)

lemma collection_written_stdout:
  "written_stdout (fst (get_paths_between_root_and_destinations eng pair)) = []"
  by (simp add: get_paths_between_root_and_destinations_def Let_def comp_def
        destinations_written_stdout)

lemma roots_written_stdout:
  "written_stdout
     (concat (map (\<lambda>r. fst (get_paths_between_root_and_destinations eng
                               \<lparr>root_of = r, destinations = ds\<rparr>)) rs)) = []"
  by (induction rs) (simp_all add: written_stdout_append collection_written_stdout)

lemma fold_extend: "fold (\<lambda>x acc. acc @ x) xss acc = acc @ concat xss"
  by (induction xss arbitrary: acc) simp_all

lemma fold_fold_extend:
  "fold (\<lambda>c acc. fold (\<lambda>x acc. acc @ x) (f c) acc) cs acc = acc @ concat (map (\<lambda>c. concat (f c)) cs)"
  by (induction cs arbitrary: acc) (simp_all add: fold_extend)

text \<open>
  C1, amended: for a root with \<open>N\<close> destinations, every one of the \<open>N\<close> runs of
  \<open>get_paths_between_root_and_destination\<close> awaits the transitive closure of the root and
  the dependencies of every target of the closure itself, so the rule awaits the closure
  \<open>N\<close> times and the dependencies of every target of it \<open>N\<close> times; every run builds its
  adjacency map from the answers, the \<open>N\<close> maps are equal (\<open>adjacency_lists_of\<close> of the
  root), and every run searches that map. (Whether the engine answers equal requests from
  a cache is not decided by these rules.)
\<close>

theorem adjacency_requested_per_destination:
  "awaited_transitive_targets (fst (get_paths_between_root_and_destinations eng pair))
     = replicate (length (destinations pair)) [address (root_of pair)]
   \<and> awaited_dependencies (fst (get_paths_between_root_and_destinations eng pair))
     = concat (replicate (length (destinations pair))
                 (map address (transitive_targets_closure eng [address (root_of pair)])))
   \<and> map paths (spec_paths (snd (get_paths_between_root_and_destinations eng pair)))
     = map (discovered eng (root_of pair)) (destinations pair)"
  by (simp add: collection_paths)
     (simp add: get_paths_between_root_and_destinations_def Let_def comp_def
        destinations_awaited_transitive_targets destinations_awaited_dependencies)

text \<open>
  The claim C1 as stated, one resolution for a root whatever the number of destinations,
  fails for a root with two destinations: the closure of \<open>A1\<close> is awaited twice.
\<close>

theorem adjacency_requested_twice:
  "awaited_transitive_targets
     (fst (get_paths_between_root_and_destinations fan_engine
             \<lparr>root_of = tgt ''A1'', destinations = [tgt ''D1'', tgt ''D2'']\<rparr>))
     = [[''A1''], [''A1'']]
   \<and> length (awaited_transitive_targets
       (fst (get_paths_between_root_and_destinations fan_engine
               \<lparr>root_of = tgt ''A1'', destinations = [tgt ''D1'', tgt ''D2'']\<rparr>))) \<noteq> 1"
  by code_simp

lemma until_raise_returns:
  "snd (until_raise raises es) = None \<longleftrightarrow> (\<forall>e \<in> set es. raises e = None)"
  by (induction es) (auto simp: Let_def split: option.splits)

lemma until_raise_all:
  "snd (until_raise raises es) = None \<Longrightarrow> fst (until_raise raises es) = es"
  by (induction es) (auto simp: Let_def split: option.splits)

lemma until_raise_nonempty: "es \<noteq> [] \<Longrightarrow> fst (until_raise raises es) \<noteq> []"
  by (cases es) (auto simp: Let_def split: option.splits)

lemma until_raise_last:
  "snd (until_raise raises es) = Some x \<Longrightarrow> raises (last (fst (until_raise raises es))) = Some x"
proof (induction es)
  case Nil
  then show ?case by simp
next
  case (Cons e es)
  show ?case
  proof (cases "raises e")
    case None
    with Cons.prems have x: "snd (until_raise raises es) = Some x" by (simp add: Let_def)
    then have "es \<noteq> []" by auto
    then have "fst (until_raise raises es) \<noteq> []" by (rule until_raise_nonempty)
    with Cons.IH [OF x] None show ?thesis by (simp add: Let_def)
  next
    case (Some y)
    with Cons.prems show ?thesis by simp
  qed
qed

lemma paths_body_nonempty: "paths_body eng path_from path_to \<noteq> []"
  by (simp add: paths_body_def Let_def)

lemma paths_body_written_stdout:
  "written_stdout (paths_body eng path_from path_to)
     = [concat (map (\<lambda>r. concat (map (\<lambda>d. discovered eng r d) (resolve_specs eng path_to)))
                  (resolve_specs eng path_from))]"
  by (simp add: paths_body_def Let_def written_stdout_append roots_written_stdout
        fold_fold_extend comp_def collection_paths)

text \<open>
  C9: when both options are set and the goal completes, what it writes is the
  concatenation, over the roots in their order, of the concatenation, over the
  destinations in their order, of the paths of the pair in the order of their discovery.
\<close>

theorem paths_goal_flattening:
  assumes "from' paths_subsystem = Some path_from" and "to paths_subsystem = Some path_to"
    and "snd (paths_goal raises eng paths_subsystem) = Inr g"
  shows "written_stdout (fst (paths_goal raises eng paths_subsystem))
           = [concat (map (\<lambda>r. concat (map (\<lambda>d. discovered eng r d)
                                            (resolve_specs eng path_to)))
                        (resolve_specs eng path_from))]"
proof -
  from assms have "snd (until_raise raises (paths_body eng path_from path_to)) = None"
    by (simp add: paths_goal_def Let_def split: option.splits)
  then have "fst (until_raise raises (paths_body eng path_from path_to))
               = paths_body eng path_from path_to"
    by (rule until_raise_all)
  with assms(1,2) show ?thesis
    by (simp add: paths_goal_def Let_def paths_body_written_stdout)
qed

theorem paths_goal_flattening_witness:
  "snd (paths_goal all_return fan_engine \<lparr>from' = Some ''A*'', to = Some ''D*''\<rparr>)
     = Inr \<lparr>exit_code = 0\<rparr>
   \<and> written_stdout
       (fst (paths_goal all_return fan_engine \<lparr>from' = Some ''A*'', to = Some ''D*''\<rparr>))
     = [[[''A1'', ''D1''], [''A1'', ''D2''], [''A2'', ''D1''], [''A2'', ''D2'']]]"
proof -
  have r: "snd (paths_goal all_return fan_engine \<lparr>from' = Some ''A*'', to = Some ''D*''\<rparr>)
             = Inr \<lparr>exit_code = 0\<rparr>"
    by (simp add: paths_goal_def Let_def until_raise_returns [THEN iffD2] all_return_def)
  have "concat (map (\<lambda>r. concat (map (\<lambda>d. discovered fan_engine r d)
                                            (resolve_specs fan_engine ''D*'')))
                        (resolve_specs fan_engine ''A*''))
         = [[''A1'', ''D1''], [''A1'', ''D2''], [''A2'', ''D1''], [''A2'', ''D2'']]"
    by code_simp
  with paths_goal_flattening [OF _ _ r, of "''A*''" "''D*''"] r
  show ?thesis by simp
qed

text \<open>
  C10, amended: the goal raises before any work, having made no call, exactly when
  \<open>--from\<close> or \<open>--to\<close> is unset, and what it raises then is \<open>ValueError("Must set --from")\<close>
  or \<open>ValueError("Must set --to")\<close>. When both are set it makes calls, and it raises
  exactly when one of the calls of the run raises: it lets the exception of that call
  through, and that call is the last it makes. When both are set and the run completes it
  has made all its calls and returns the exit code 0, whatever the paths found.
\<close>

theorem paths_goal_configuration_error:
  "((\<exists>x. paths_goal raises eng paths_subsystem = ([], Inl x))
      \<longleftrightarrow> (from' paths_subsystem = None \<or> to paths_subsystem = None))
   \<and> (from' paths_subsystem = None
        \<longrightarrow> paths_goal raises eng paths_subsystem = ([], Inl (ValueError ''Must set --from'')))
   \<and> (from' paths_subsystem \<noteq> None \<and> to paths_subsystem = None
        \<longrightarrow> paths_goal raises eng paths_subsystem = ([], Inl (ValueError ''Must set --to'')))
   \<and> (from' paths_subsystem = Some path_from \<and> to paths_subsystem = Some path_to
        \<longrightarrow> ((\<exists>x. snd (paths_goal raises eng paths_subsystem) = Inl x)
               \<longleftrightarrow> (\<exists>e \<in> set (paths_body eng path_from path_to). raises e \<noteq> None))
            \<and> (\<forall>x. snd (paths_goal raises eng paths_subsystem) = Inl x
                   \<longrightarrow> raises (last (fst (paths_goal raises eng paths_subsystem))) = Some x)
            \<and> (\<forall>g. snd (paths_goal raises eng paths_subsystem) = Inr g
                   \<longrightarrow> g = \<lparr>exit_code = 0\<rparr>
                       \<and> fst (paths_goal raises eng paths_subsystem)
                           = paths_body eng path_from path_to))"
proof (intro conjI impI)
  show "(\<exists>x. paths_goal raises eng paths_subsystem = ([], Inl x))
      \<longleftrightarrow> (from' paths_subsystem = None \<or> to paths_subsystem = None)"
    using until_raise_nonempty [OF paths_body_nonempty, of raises eng]
    by (cases "from' paths_subsystem"; cases "to paths_subsystem")
       (auto simp: paths_goal_def Let_def)
  show "paths_goal raises eng paths_subsystem = ([], Inl (ValueError ''Must set --from''))"
    if "from' paths_subsystem = None"
    using that by (simp add: paths_goal_def)
  show "paths_goal raises eng paths_subsystem = ([], Inl (ValueError ''Must set --to''))"
    if "from' paths_subsystem \<noteq> None \<and> to paths_subsystem = None"
    using that by (auto simp: paths_goal_def)
next
  assume set: "from' paths_subsystem = Some path_from \<and> to paths_subsystem = Some path_to"
  let ?r = "until_raise raises (paths_body eng path_from path_to)"
  from set have g: "paths_goal raises eng paths_subsystem
      = (fst ?r, case snd ?r of Some x \<Rightarrow> Inl x | None \<Rightarrow> Inr \<lparr>exit_code = 0\<rparr>)"
    by (simp add: paths_goal_def Let_def)
  show "(\<exists>x. snd (paths_goal raises eng paths_subsystem) = Inl x)
               \<longleftrightarrow> (\<exists>e \<in> set (paths_body eng path_from path_to). raises e \<noteq> None)"
    using until_raise_returns [of raises "paths_body eng path_from path_to"]
    unfolding g by (cases "snd ?r") auto
  show "\<forall>x. snd (paths_goal raises eng paths_subsystem) = Inl x
                   \<longrightarrow> raises (last (fst (paths_goal raises eng paths_subsystem))) = Some x"
    unfolding g by (cases "snd ?r") (auto dest: until_raise_last)
  show "\<forall>g. snd (paths_goal raises eng paths_subsystem) = Inr g
                   \<longrightarrow> g = \<lparr>exit_code = 0\<rparr>
                       \<and> fst (paths_goal raises eng paths_subsystem)
                           = paths_body eng path_from path_to"
    unfolding g by (cases "snd ?r") (auto dest: until_raise_all)
qed

theorem paths_goal_configuration_error_witness:
  "paths_goal failing_resolution fan_engine \<lparr>from' = None, to = Some ''D*''\<rparr>
     = ([], Inl (ValueError ''Must set --from''))
   \<and> paths_goal failing_resolution fan_engine \<lparr>from' = Some ''A*'', to = None\<rparr>
     = ([], Inl (ValueError ''Must set --to''))
   \<and> (\<exists>x. snd (paths_goal failing_resolution fan_engine
                 \<lparr>from' = Some ''A*'', to = Some ''D*''\<rparr>) = Inl x)
   \<and> snd (paths_goal all_return fan_engine \<lparr>from' = Some ''A*'', to = Some ''D*''\<rparr>)
     = Inr \<lparr>exit_code = 0\<rparr>"
proof -
  have f: "Await_specs ''A*'' \<in> set (paths_body fan_engine ''A*'' ''D*'')"
    by (simp add: paths_body_def Let_def)
  have "failing_resolution (Await_specs ''A*'') \<noteq> None"
    by (simp add: failing_resolution_def)
  with f have e: "\<exists>e \<in> set (paths_body fan_engine ''A*'' ''D*''). failing_resolution e \<noteq> None"
    by blast
  have n: "\<not> (\<exists>e \<in> set (paths_body fan_engine ''A*'' ''D*''). all_return e \<noteq> None)"
    by (simp add: all_return_def)
  from paths_goal_configuration_error
         [of failing_resolution fan_engine "\<lparr>from' = None, to = Some ''D*''\<rparr>"]
    paths_goal_configuration_error
         [of failing_resolution fan_engine "\<lparr>from' = Some ''A*'', to = None\<rparr>"]
    paths_goal_configuration_error
         [of failing_resolution fan_engine "\<lparr>from' = Some ''A*'', to = Some ''D*''\<rparr>" "''A*''" "''D*''"]
    paths_goal_configuration_error
         [of all_return fan_engine "\<lparr>from' = Some ''A*'', to = Some ''D*''\<rparr>" "''A*''" "''D*''"]
    e n
  show ?thesis
    by (auto simp del: ex_simps) (metis old.sum.exhaust)
qed

text \<open>
  The claim C10 as stated, that the goal raises only when an option is unset, fails: with
  both options set, the goal raises when the resolution of the pattern \<open>A*\<close> raises.
\<close>

theorem paths_goal_raises_with_options_set:
  "from' \<lparr>from' = Some ''A*'', to = Some ''D*''\<rparr> \<noteq> None
   \<and> to \<lparr>from' = Some ''A*'', to = Some ''D*''\<rparr> \<noteq> None
   \<and> snd (paths_goal failing_resolution fan_engine \<lparr>from' = Some ''A*'', to = Some ''D*''\<rparr>)
       = Inl (Exception ''ResolveError'')"
  by (simp add: paths_goal_def paths_body_def Let_def failing_resolution_def)

end
